theory Spec2Isabelle
  imports Main
begin

section \<open>Strings and the POSIX path functions used by the command line\<close>

text \<open>
  JavaScript strings are modelled as \<^typ>\<open>string\<close>. \<open>endsWith\<close> is
  \<^verbatim>\<open>String.prototype.endsWith\<close> with one argument.
\<close>

type_synonym path = string

definition endsWith :: "string \<Rightarrow> string \<Rightarrow> bool" where
  "endsWith s suf \<longleftrightarrow>
     length suf \<le> length s \<and> drop (length s - length suf) s = suf"

text \<open>
  The functions \<^verbatim>\<open>join\<close>, \<^verbatim>\<open>dirname\<close>, \<^verbatim>\<open>basename\<close> and
  \<^verbatim>\<open>extname\<close> are imported by \<^verbatim>\<open>cli.js\<close> from the \<^verbatim>\<open>path\<close> module of
  Node.js, which is not part of the repository. They are modelled here after the POSIX
  variant of that module (\<^verbatim>\<open>lib/path.js\<close>, \<^verbatim>\<open>path.posix\<close>), on strings
  rather than on indices into them. The theorems on the output path and on the paths of
  the children of a directory depend on this model; the other theorems on the traversal
  use \<^verbatim>\<open>join\<close> and the output path as they come, with no property of them.
\<close>

text \<open>
  \<^verbatim>\<open>String.prototype.split\<close> with a separator of one character; the pieces may be
  empty, and the empty string gives one empty piece.
\<close>

fun splitOn :: "char \<Rightarrow> string \<Rightarrow> string list" where
  "splitOn sep [] = [[]]"
| "splitOn sep (c # cs) =
     (if c = sep then [] # splitOn sep cs
      else (case splitOn sep cs of
              [] \<Rightarrow> [[c]]
            | s # ss \<Rightarrow> (c # s) # ss))"

text \<open>Cutting a path at every slash, and putting the pieces together again.\<close>

definition segments :: "path \<Rightarrow> string list" where
  "segments p = splitOn (CHR ''/'') p"

fun unsegments :: "string list \<Rightarrow> string" where
  "unsegments [] = []"
| "unsegments [s] = s"
| "unsegments (s # t # ss) = s @ CHR ''/'' # unsegments (t # ss)"

text \<open>
  \<^verbatim>\<open>normalizeString(path, allowAboveRoot)\<close>: empty segments and \<^verbatim>\<open>.\<close> are
  dropped; \<^verbatim>\<open>..\<close> removes the segment before it, unless there is none or it is
  \<^verbatim>\<open>..\<close> itself, in which case \<^verbatim>\<open>..\<close> is kept when \<open>allowAboveRoot\<close>
  holds and dropped otherwise.
\<close>

definition normalizeStep :: "bool \<Rightarrow> string list \<Rightarrow> string \<Rightarrow> string list" where
  "normalizeStep allowAboveRoot res seg =
     (if seg = [] \<or> seg = ''.'' then res
      else if seg = ''..'' then
        (if res = [] \<or> last res = ''..''
         then (if allowAboveRoot then res @ [''..''] else res)
         else butlast res)
      else res @ [seg])"

definition normalizeString :: "string \<Rightarrow> bool \<Rightarrow> string" where
  "normalizeString p allowAboveRoot =
     unsegments (foldl (normalizeStep allowAboveRoot) [] (segments p))"

definition normalizePath :: "path \<Rightarrow> path" where
  "normalizePath p =
     (if p = [] then ''.''
      else
        (let isAbsolute = (hd p = CHR ''/'');
             trailingSeparator = (last p = CHR ''/'');
             q = normalizeString p (\<not> isAbsolute)
         in if q = [] then
              (if isAbsolute then ''/''
               else if trailingSeparator then ''./'' else ''.'')
            else
              (if isAbsolute then [CHR ''/''] else []) @ q @
              (if trailingSeparator then [CHR ''/''] else [])))"

text \<open>\<^verbatim>\<open>join(a, b)\<close> with two arguments, as \<^verbatim>\<open>cli.js\<close> calls it.\<close>

definition join :: "path \<Rightarrow> path \<Rightarrow> path" where
  "join a b =
     (if a = [] \<and> b = [] then ''.''
      else if a = [] then normalizePath b
      else if b = [] then normalizePath a
      else normalizePath (a @ CHR ''/'' # b))"

text \<open>
  \<^verbatim>\<open>dirname\<close> scans from the end down to index 1: it skips the trailing slashes and
  the last component and cuts the path at the slash before that component.
\<close>

definition dirname :: "path \<Rightarrow> path" where
  "dirname p =
     (if p = [] then ''.''
      else
        (let hasRoot = (hd p = CHR ''/'');
             r = dropWhile (\<lambda>c. c \<noteq> CHR ''/'') (dropWhile (\<lambda>c. c = CHR ''/'') (rev p))
         in if length r \<le> 1 then (if hasRoot then ''/'' else ''.'')
            else if hasRoot \<and> length r = 2 then ''//''
            else take (length r - 1) p))"

text \<open>The last component of a path, trailing slashes ignored.\<close>

definition lastComponent :: "path \<Rightarrow> string" where
  "lastComponent p =
     rev (takeWhile (\<lambda>c. c \<noteq> CHR ''/'') (dropWhile (\<lambda>c. c = CHR ''/'') (rev p)))"

text \<open>
  \<^verbatim>\<open>extname\<close>: from the last dot of the last component to its end; empty when there
  is no dot, when the last dot is the first character of the component, and when the
  component is \<^verbatim>\<open>..\<close>.
\<close>

definition extname :: "path \<Rightarrow> string" where
  "extname p =
     (let comp = lastComponent p;
          ext = rev (takeWhile (\<lambda>c. c \<noteq> CHR ''.'') (rev comp))
      in if CHR ''.'' \<notin> set comp then []
         else if length ext + 1 = length comp then []
         else if comp = ''..'' then []
         else CHR ''.'' # ext)"

text \<open>
  \<^verbatim>\<open>basename(path, suffix)\<close>. With an empty suffix, or one longer than the path,
  the result is the last component. Otherwise the suffix is matched backwards against the
  last component: a complete match cuts the suffix off, unless the component is the suffix
  itself; a mismatch gives the whole component; and when the component ends before the
  suffix does, the result runs from the start of the component to the end of the path.
  A path equal to the suffix gives the empty string.
\<close>

definition basename :: "path \<Rightarrow> string \<Rightarrow> string" where
  "basename p suf =
     (if suf \<noteq> [] \<and> length suf \<le> length p then
        (if suf = p then []
         else
           (let r = dropWhile (\<lambda>c. c = CHR ''/'') (rev p);
                c = takeWhile (\<lambda>c. c \<noteq> CHR ''/'') r;
                rs = rev suf
            in if take (length rs) c = rs then
                 (if length c = length rs then rev c
                  else rev (drop (length rs) c))
               else if take (length c) rs = c then drop (length r - length c) p
               else rev c))
      else lastComponent p)"

section \<open>The output path of a file\<close>

text \<open>
  The first two lines of \<^verbatim>\<open>processFile\<close>: the extension is \<^verbatim>\<open>.coffee.md\<close>
  when the path ends with it and \<^verbatim>\<open>extname(path)\<close> otherwise; the output path
  is \<^verbatim>\<open>join(dirname(path), basename(path, extension)) + '.js'\<close>.
\<close>

definition extension :: "path \<Rightarrow> string" where
  "extension p = (if endsWith p ''.coffee.md'' then ''.coffee.md'' else extname p)"

definition outputPath :: "path \<Rightarrow> path" where
  "outputPath p = join (dirname p) (basename p (extension p)) @ ''.js''"

text \<open>
  The output path as the specification states it, to be compared with \<open>outputPath\<close>:
  the directory of the path joined with its base name (the last component) with the
  detected extension stripped, plus \<^verbatim>\<open>.js\<close>; the detected extension is
  \<^verbatim>\<open>.coffee.md\<close> when the path ends with it and the last extension otherwise.
\<close>

definition stripSuffix :: "string \<Rightarrow> string \<Rightarrow> string" where
  "stripSuffix suf s = (if endsWith s suf then take (length s - length suf) s else s)"

definition statedOutputPath :: "path \<Rightarrow> path" where
  "statedOutputPath p =
     (let detected = (if endsWith p ''.coffee.md'' then ''.coffee.md'' else extname p)
      in join (dirname p) (stripSuffix detected (lastComponent p)) @ ''.js'')"

text \<open>
  A plain name is what \<^verbatim>\<open>readdir\<close> returns for an entry of a directory: not
  empty, without a slash, and neither \<^verbatim>\<open>.\<close> nor \<^verbatim>\<open>..\<close>. A plain path is made
  of plain names separated by single slashes, with a slash in front when it is absolute.
\<close>

definition plainName :: "string \<Rightarrow> bool" where
  "plainName c \<longleftrightarrow> c \<noteq> [] \<and> CHR ''/'' \<notin> set c \<and> c \<noteq> ''.'' \<and> c \<noteq> ''..''"

definition plainPath :: "bool \<Rightarrow> string list \<Rightarrow> string \<Rightarrow> path" where
  "plainPath absolute dirs name =
     (if absolute then ''/'' else []) @ unsegments (dirs @ [name])"

section \<open>Options, the host environment and its effects\<close>

text \<open>
  \<^verbatim>\<open>Options\<close> is the object handed to the conversion engine. A flag that
  \<^verbatim>\<open>parseArguments\<close> does not set is absent in JavaScript and \<open>False\<close> or
  \<open>None\<close> here.
\<close>

record Options =
  filename :: "string option"
  literate :: bool
  keepCommonJS :: bool
  forceDefaultExport :: bool
  safeImportFunctionIdentifiers :: "string list option"
  preferConst :: bool
  looseDefaultParams :: bool
  looseForExpressions :: bool
  looseForOf :: bool
  looseIncludes :: bool
  looseComparisonNegation :: bool
  allowInvalidConstructors :: bool
  enableBabelConstructorWorkaround :: bool

record CLIOptions =
  paths :: "path list"
  baseOptions :: Options
  modernizeJS :: bool

text \<open>
  Everything \<^verbatim>\<open>cli.js\<close> imports is a parameter of the model: the four functions of
  \<^verbatim>\<open>fs\<close> over a state of the file system \<open>'w\<close> that only \<^verbatim>\<open>writeFile\<close>
  changes, the two entry points of the engine (\<^verbatim>\<open>./index\<close>), which return the
  \<^verbatim>\<open>code\<close> of their result or throw, and the two static functions of
  \<^verbatim>\<open>PatchError\<close>. \<open>'e\<close> is the type of JavaScript error values. A result
  \<open>Inl err\<close> of \<open>fs_stat\<close> is the callback's \<^verbatim>\<open>err\<close>; \<open>Inr b\<close> is an
  \<^verbatim>\<open>info\<close> with \<^verbatim>\<open>info.isDirectory() = b\<close>.

  The standard input has no encoding set, so each of its chunks is a \<^verbatim>\<open>Buffer\<close>, a
  list of bytes here; \<open>buffer_toString\<close> is the conversion of a \<^verbatim>\<open>Buffer\<close> to
  a string that \<^verbatim>\<open>data += chunk\<close> applies to the chunk.
\<close>

type_synonym buffer = "nat list"

record ('w, 'e) host =
  fs_stat :: "'w \<Rightarrow> path \<Rightarrow> 'e + bool"
  fs_readdir :: "'w \<Rightarrow> path \<Rightarrow> 'e + string list"
  fs_readFile :: "'w \<Rightarrow> path \<Rightarrow> 'e + string"
  fs_writeFile :: "'w \<Rightarrow> path \<Rightarrow> string \<Rightarrow> 'e option \<times> 'w"
  engine_convert :: "string \<Rightarrow> Options \<Rightarrow> 'e + string"
  engine_modernizeJS :: "string \<Rightarrow> Options \<Rightarrow> 'e + string"
  PatchError_detect :: "'e \<Rightarrow> bool"
  PatchError_prettyPrint :: "'e \<Rightarrow> string"
  buffer_toString :: "buffer \<Rightarrow> string"

text \<open>
  The calls a run makes to the outside, in the order it makes them.
  \<open>ConsoleLog p out\<close> is the progress line of \<^verbatim>\<open>processFile\<close>;
  \<open>ConsoleError name msg\<close> is the line \<^verbatim>\<open>name: msg\<close> on the error stream.
\<close>

datatype 'e event =
    Stat path
  | Readdir path
  | ReadFile path
  | WriteFile path string
  | ConsoleLog path path
  | ConsoleError string string
  | EngineCall bool string Options
  | StdoutWrite string
  | Callback "'e list"
  | Usage

text \<open>
  How far a run has come. \<open>Running\<close>: \<^verbatim>\<open>processNext\<close> is called next.
  \<open>Stalled\<close>: a callback returned without calling \<^verbatim>\<open>processNext\<close>, so nothing
  is scheduled any more and the completion callback has not been called. \<open>Finished\<close>:
  the work list was found empty. \<open>Exited n\<close>: \<^verbatim>\<open>process.exit(n)\<close>.
  \<open>Uncaught e\<close>: \<open>e\<close> was thrown and nothing catches it.
  \<open>UncaughtTypeError\<close>: the same for a \<^verbatim>\<open>TypeError\<close> of the runtime.
\<close>

datatype 'e status =
    Running
  | Stalled
  | Finished
  | Exited nat
  | Uncaught 'e
  | UncaughtTypeError

text \<open>
  The exit status of the process: that of \<^verbatim>\<open>process.exit\<close>, 1 after an uncaught
  exception, and 0 when the event loop runs dry.
\<close>

fun exitStatus :: "'e status \<Rightarrow> nat option" where
  "exitStatus Running = None"
| "exitStatus Stalled = Some 0"
| "exitStatus Finished = Some 0"
| "exitStatus (Exited n) = Some n"
| "exitStatus (Uncaught e) = Some 1"
| "exitStatus UncaughtTypeError = Some 1"

section \<open>\<^verbatim>\<open>runWithCode\<close>\<close>

text \<open>
  \<^verbatim>\<open>Object.assign({filename: name}, options.baseOptions)\<close>: a \<^verbatim>\<open>filename\<close> of
  the base options wins over \<open>name\<close>.
\<close>

definition withFilename :: "string \<Rightarrow> Options \<Rightarrow> Options" where
  "withFilename name base =
     (case filename base of
        None \<Rightarrow> base\<lparr>filename := Some name\<rparr>
      | Some f \<Rightarrow> base)"

text \<open>
  The result is the events of the call and either the code or the status in which the
  process ends: exit status 1 after printing a patch error, the error itself thrown
  again otherwise.
\<close>

definition runWithCode ::
  "('w, 'e) host \<Rightarrow> string \<Rightarrow> string \<Rightarrow> CLIOptions \<Rightarrow> 'e event list \<times> ('e status + string)"
where
  "runWithCode h name code options =
     (let base = withFilename name (baseOptions options);
          call = EngineCall (modernizeJS options) code base;
          r = (if modernizeJS options then engine_modernizeJS h code base
               else engine_convert h code base)
      in case r of
           Inr out \<Rightarrow> ([call], Inr out)
         | Inl err \<Rightarrow>
             (if PatchError_detect h err
              then ([call, ConsoleError name (PatchError_prettyPrint h err)], Inl (Exited 1))
              else ([call], Inl (Uncaught err))))"

section \<open>\<^verbatim>\<open>runWithPaths\<close>\<close>

text \<open>
  The variables of the closure (\<^verbatim>\<open>errors\<close>, \<^verbatim>\<open>pending\<close>), the file system, the
  events so far and the status.
\<close>

record ('w, 'e) state =
  pending :: "path list"
  errors :: "'e list"
  world :: "'w"
  trace :: "'e event list"
  status :: "'e status"

text \<open>The filter of \<^verbatim>\<open>processDirectory\<close> on the names of the children.\<close>

definition eligible :: "CLIOptions \<Rightarrow> string \<Rightarrow> bool" where
  "eligible options child =
     (if modernizeJS options then endsWith child ''.js''
      else endsWith child ''.coffee'' \<or> endsWith child ''.litcoffee'' \<or>
           endsWith child ''.coffee.md'')"

text \<open>
  Each function below runs one function of the closure together with the callback it
  passes to \<^verbatim>\<open>fs\<close>, up to the point where that callback calls
  \<^verbatim>\<open>processNext\<close> (the status stays \<open>Running\<close>) or returns without doing so.
\<close>

definition processFile ::
  "('w, 'e) host \<Rightarrow> CLIOptions \<Rightarrow> path \<Rightarrow> ('w, 'e) state \<Rightarrow> ('w, 'e) state"
where
  "processFile h options p s =
     (let out = outputPath p;
          s1 = s\<lparr>trace := trace s @ [ConsoleLog p out, ReadFile p]\<rparr>
      in case fs_readFile h (world s) p of
           Inl err \<Rightarrow> s1\<lparr>errors := errors s @ [err]\<rparr>
         | Inr data \<Rightarrow>
             (case runWithCode h p data options of
                (evs, Inl st) \<Rightarrow> s1\<lparr>trace := trace s1 @ evs, status := st\<rparr>
              | (evs, Inr resultCode) \<Rightarrow>
                  (case fs_writeFile h (world s) out resultCode of
                     (werr, w') \<Rightarrow>
                       s1\<lparr>trace := trace s1 @ evs @ [WriteFile out resultCode],
                          world := w',
                          errors := (case werr of
                                       None \<Rightarrow> errors s
                                     | Some err \<Rightarrow> errors s @ [err])\<rparr>)))"

definition processDirectory ::
  "('w, 'e) host \<Rightarrow> CLIOptions \<Rightarrow> path \<Rightarrow> ('w, 'e) state \<Rightarrow> ('w, 'e) state"
where
  "processDirectory h options p s =
     (let s1 = s\<lparr>trace := trace s @ [Readdir p]\<rparr>
      in case fs_readdir h (world s) p of
           Inl err \<Rightarrow> s1\<lparr>errors := errors s @ [err]\<rparr>
         | Inr children \<Rightarrow>
             s1\<lparr>pending := map (join p) (filter (eligible options) children) @ pending s\<rparr>)"

definition processPath ::
  "('w, 'e) host \<Rightarrow> CLIOptions \<Rightarrow> path \<Rightarrow> ('w, 'e) state \<Rightarrow> ('w, 'e) state"
where
  "processPath h options p s =
     (let s1 = s\<lparr>trace := trace s @ [Stat p]\<rparr>
      in case fs_stat h (world s) p of
           Inl err \<Rightarrow> s1\<lparr>errors := errors s @ [err], status := Stalled\<rparr>
         | Inr isDirectory \<Rightarrow>
             (if isDirectory then processDirectory h options p s1
              else processFile h options p s1))"

text \<open>
  \<^verbatim>\<open>processNext\<close>; \<open>callback\<close> tells whether \<^verbatim>\<open>runWithPaths\<close> was given a
  completion callback.
\<close>

definition processNext ::
  "('w, 'e) host \<Rightarrow> CLIOptions \<Rightarrow> bool \<Rightarrow> ('w, 'e) state \<Rightarrow> ('w, 'e) state"
where
  "processNext h options callback s =
     (case pending s of
        p # rest \<Rightarrow> processPath h options p (s\<lparr>pending := rest\<rparr>)
      | [] \<Rightarrow>
          (if callback
           then s\<lparr>trace := trace s @ [Callback (errors s)], status := Finished\<rparr>
           else s\<lparr>status := Finished\<rparr>))"

text \<open>
  The chain of calls to \<^verbatim>\<open>processNext\<close>, cut after \<open>n\<close> calls; a state that is
  not \<open>Running\<close> stays as it is.
\<close>

fun steps ::
  "('w, 'e) host \<Rightarrow> CLIOptions \<Rightarrow> bool \<Rightarrow> nat \<Rightarrow> ('w, 'e) state \<Rightarrow> ('w, 'e) state"
where
  "steps h options callback 0 s = s"
| "steps h options callback (Suc n) s =
     (if status s = Running
      then steps h options callback n (processNext h options callback s)
      else s)"

definition initial :: "path list \<Rightarrow> 'w \<Rightarrow> ('w, 'e) state" where
  "initial ps w =
     \<lparr>pending = ps, errors = [], world = w, trace = [], status = Running\<rparr>"

text \<open>
  \<^verbatim>\<open>runWithPaths\<close> with \<open>fuel\<close> calls of \<^verbatim>\<open>processNext\<close> at most:
  \<open>None\<close> when the chain is still running after them.
\<close>

definition runWithPaths ::
  "('w, 'e) host \<Rightarrow> path list \<Rightarrow> CLIOptions \<Rightarrow> bool \<Rightarrow> 'w \<Rightarrow> nat \<Rightarrow> ('w, 'e) state option"
where
  "runWithPaths h ps options callback w fuel =
     (let s = steps h options callback fuel (initial ps w)
      in if status s = Running then None else Some s)"



text \<open>The lists of errors handed to the completion callback so far.\<close>

fun delivered :: "'e event list \<Rightarrow> 'e list list" where
  "delivered [] = []"
| "delivered (Callback errs # evs) = errs # delivered evs"
| "delivered (ev # evs) = delivered evs"

text \<open>The events that are calls to \<^verbatim>\<open>fs\<close>, and those that are calls to the engine.\<close>

fun fsEvent :: "'e event \<Rightarrow> bool" where
  "fsEvent (Stat p) = True"
| "fsEvent (Readdir p) = True"
| "fsEvent (ReadFile p) = True"
| "fsEvent (WriteFile p d) = True"
| "fsEvent ev = False"

fun engineEvent :: "'e event \<Rightarrow> bool" where
  "engineEvent (EngineCall m code base) = True"
| "engineEvent ev = False"

text \<open>
  The names that classifying \<open>p\<close> puts back on the work list: the children of
  \<open>p\<close> that pass the filter when \<open>p\<close> is a directory that can be listed, in the
  order of the listing, and none otherwise.
\<close>

definition requeued :: "('w, 'e) host \<Rightarrow> CLIOptions \<Rightarrow> 'w \<Rightarrow> path \<Rightarrow> string list" where
  "requeued h options w p =
     (case fs_stat h w p of
        Inr True \<Rightarrow>
          (case fs_readdir h w p of
             Inr children \<Rightarrow> filter (eligible options) children
           | Inl e \<Rightarrow> [])
      | _ \<Rightarrow> [])"

section \<open>\<^verbatim>\<open>parseArguments\<close>, \<^verbatim>\<open>runWithStdio\<close> and \<^verbatim>\<open>run\<close>\<close>

definition startsWith :: "string \<Rightarrow> string \<Rightarrow> bool" where
  "startsWith s pre \<longleftrightarrow> take (length pre) s = pre"

definition noOptions :: Options where
  "noOptions =
     \<lparr>filename = None, literate = False, keepCommonJS = False,
      forceDefaultExport = False, safeImportFunctionIdentifiers = None,
      preferConst = False, looseDefaultParams = False, looseForExpressions = False,
      looseForOf = False, looseIncludes = False, looseComparisonNegation = False,
      allowInvalidConstructors = False, enableBabelConstructorWorkaround = False\<rparr>"

text \<open>
  The three ways in which \<^verbatim>\<open>parseArguments\<close> ends the process instead of
  returning: \<^verbatim>\<open>-h\<close> prints the usage text and exits with status 0; an unknown
  option prints a line on the error stream and exits with status 1; and
  \<^verbatim>\<open>--safe-import-function-identifiers\<close> as the last argument reads
  \<^verbatim>\<open>args[i]\<close> past the end and calls \<^verbatim>\<open>split\<close> on \<^verbatim>\<open>undefined\<close>, a
  \<^verbatim>\<open>TypeError\<close>.
\<close>

datatype abort =
    Help
  | UnrecognizedOption string
  | SplitOfUndefined

text \<open>
  The loop of \<^verbatim>\<open>parseArguments\<close> over the arguments that are left, with the three
  variables it fills.
\<close>

fun parseLoop :: "string list \<Rightarrow> CLIOptions \<Rightarrow> abort + CLIOptions"
where
  "parseLoop [] acc = Inr acc"
| "parseLoop (arg # rest) acc =
     (let base = baseOptions acc in
      if arg = ''-h'' \<or> arg = ''--help'' then Inl Help
      else if arg = ''--modernize-js'' then parseLoop rest (acc\<lparr>modernizeJS := True\<rparr>)
      else if arg = ''--literate''
        then parseLoop rest (acc\<lparr>baseOptions := base\<lparr>literate := True\<rparr>\<rparr>)
      else if arg = ''--keep-commonjs''
        then parseLoop rest (acc\<lparr>baseOptions := base\<lparr>keepCommonJS := True\<rparr>\<rparr>)
      else if arg = ''--force-default-export''
        then parseLoop rest (acc\<lparr>baseOptions := base\<lparr>forceDefaultExport := True\<rparr>\<rparr>)
      else if arg = ''--safe-import-function-identifiers''
        then (case rest of
                [] \<Rightarrow> Inl SplitOfUndefined
              | v # rest' \<Rightarrow>
                  parseLoop rest'
                    (acc\<lparr>baseOptions :=
                           base\<lparr>safeImportFunctionIdentifiers :=
                                  Some (splitOn (CHR '','') v)\<rparr>\<rparr>))
      else if arg = ''--prefer-const''
        then parseLoop rest (acc\<lparr>baseOptions := base\<lparr>preferConst := True\<rparr>\<rparr>)
      else if arg = ''--loose-default-params''
        then parseLoop rest (acc\<lparr>baseOptions := base\<lparr>looseDefaultParams := True\<rparr>\<rparr>)
      else if arg = ''--loose-for-expressions''
        then parseLoop rest (acc\<lparr>baseOptions := base\<lparr>looseForExpressions := True\<rparr>\<rparr>)
      else if arg = ''--loose-for-of''
        then parseLoop rest (acc\<lparr>baseOptions := base\<lparr>looseForOf := True\<rparr>\<rparr>)
      else if arg = ''--loose-includes''
        then parseLoop rest (acc\<lparr>baseOptions := base\<lparr>looseIncludes := True\<rparr>\<rparr>)
      else if arg = ''--loose-comparison-negation''
        then parseLoop rest (acc\<lparr>baseOptions := base\<lparr>looseComparisonNegation := True\<rparr>\<rparr>)
      else if arg = ''--allow-invalid-constructors''
        then parseLoop rest (acc\<lparr>baseOptions := base\<lparr>allowInvalidConstructors := True\<rparr>\<rparr>)
      else if arg = ''--enable-babel-constructor-workaround''
        then parseLoop rest
               (acc\<lparr>baseOptions := base\<lparr>enableBabelConstructorWorkaround := True\<rparr>\<rparr>)
      else if startsWith arg ''-'' then Inl (UnrecognizedOption arg)
      else parseLoop rest (acc\<lparr>paths := paths acc @ [arg]\<rparr>))"

definition parseArguments :: "string list \<Rightarrow> abort + CLIOptions" where
  "parseArguments args =
     parseLoop args \<lparr>paths = [], baseOptions = noOptions, modernizeJS = False\<rparr>"

text \<open>
  \<^verbatim>\<open>runWithStdio\<close> on an input stream that delivers \<open>chunks\<close> and ends. Each
  chunk is converted to a string when it is appended to \<^verbatim>\<open>data\<close>. The result
  reuses the record of \<^verbatim>\<open>runWithPaths\<close> for the events and the status; there is no
  work list and no list of errors.
\<close>

definition runWithStdio ::
  "('w, 'e) host \<Rightarrow> CLIOptions \<Rightarrow> buffer list \<Rightarrow> 'w \<Rightarrow> ('w, 'e) state"
where
  "runWithStdio h options chunks w =
     (let data = foldl (\<lambda>data chunk. data @ buffer_toString h chunk) [] chunks
      in case runWithCode h ''stdin'' data options of
           (evs, Inl st) \<Rightarrow>
             \<lparr>pending = [], errors = [], world = w, trace = evs, status = st\<rparr>
         | (evs, Inr resultCode) \<Rightarrow>
             \<lparr>pending = [], errors = [], world = w,
              trace = evs @ [StdoutWrite resultCode], status = Finished\<rparr>)"

text \<open>The events and the status in which such an end leaves the process.\<close>

fun aborted :: "abort \<Rightarrow> 'w \<Rightarrow> ('w, 'e) state" where
  "aborted Help w =
     \<lparr>pending = [], errors = [], world = w, trace = [Usage], status = Exited 0\<rparr>"
| "aborted (UnrecognizedOption arg) w =
     \<lparr>pending = [], errors = [], world = w,
      trace = [ConsoleError ''Error''
                 (''unrecognized option '' @ [CHR 0x27] @ arg @ [CHR 0x27])],
      status = Exited 1\<rparr>"
| "aborted SplitOfUndefined w =
     \<lparr>pending = [], errors = [], world = w, trace = [], status = UncaughtTypeError\<rparr>"

text \<open>
  \<^verbatim>\<open>run\<close>, the only export: \<^verbatim>\<open>runWithPaths\<close> is called with two arguments,
  so its \<^verbatim>\<open>callback\<close> is \<^verbatim>\<open>null\<close>.
\<close>

definition run ::
  "('w, 'e) host \<Rightarrow> string list \<Rightarrow> buffer list \<Rightarrow> 'w \<Rightarrow> nat \<Rightarrow> ('w, 'e) state option"
where
  "run h args chunks w fuel =
     (case parseArguments args of
        Inl a \<Rightarrow> Some (aborted a w)
      | Inr options \<Rightarrow>
          (if paths options \<noteq> []
           then runWithPaths h (paths options) options False w fuel
           else Some (runWithStdio h options chunks w)))"

section \<open>A small host for concrete runs\<close>

text \<open>
  A file system as an association list from paths to files and directories, and an
  engine that fails on two fixed inputs. The concrete runs below use it.
\<close>

datatype node = File string | Directory "string list"

datatype error =
    ENOENT path
  | ENOTDIR path
  | EISDIR path
  | SyntaxProblem string
  | InternalProblem string

type_synonym tree = "(path \<times> node) list"

definition exampleEngine :: "string \<Rightarrow> Options \<Rightarrow> error + string" where
  "exampleEngine code base =
     (if code = ''syntax error'' then Inl (SyntaxProblem ''unexpected token'')
      else if code = ''crash'' then Inl (InternalProblem ''assertion failed'')
      else Inr (''// '' @ code))"

text \<open>
  A decoder of UTF-8 for text whose characters are at most U+00FF. Like the decoder of
  Node.js it gives one replacement character for each byte that does not belong to a
  complete sequence. The replacement character U+FFFD has no place among the characters
  of \<^typ>\<open>string\<close>; \<open>replacement\<close> stands for it.
\<close>

definition replacement :: char where
  "replacement = CHR 0x1A"

fun exampleDecode :: "buffer \<Rightarrow> string" where
  "exampleDecode [] = []"
| "exampleDecode [b] = (if b < 128 then [char_of b] else [replacement])"
| "exampleDecode (b # c # bs) =
     (if b < 128 then char_of b # exampleDecode (c # bs)
      else if (b = 194 \<or> b = 195) \<and> 128 \<le> c \<and> c < 192
        then char_of ((b - 192) * 64 + (c - 128)) # exampleDecode bs
      else replacement # exampleDecode (c # bs))"

definition exampleHost :: "(tree, error) host" where
  "exampleHost =
     \<lparr>fs_stat = (\<lambda>w p. case map_of w p of
                    None \<Rightarrow> Inl (ENOENT p)
                  | Some (File d) \<Rightarrow> Inr False
                  | Some (Directory cs) \<Rightarrow> Inr True),
      fs_readdir = (\<lambda>w p. case map_of w p of
                    None \<Rightarrow> Inl (ENOENT p)
                  | Some (File d) \<Rightarrow> Inl (ENOTDIR p)
                  | Some (Directory cs) \<Rightarrow> Inr cs),
      fs_readFile = (\<lambda>w p. case map_of w p of
                    None \<Rightarrow> Inl (ENOENT p)
                  | Some (File d) \<Rightarrow> Inr d
                  | Some (Directory cs) \<Rightarrow> Inl (EISDIR p)),
      fs_writeFile = (\<lambda>w p d. case map_of w p of
                    Some (Directory cs) \<Rightarrow> (Some (EISDIR p), w)
                  | _ \<Rightarrow> (None, (p, File d) # w)),
      engine_convert = exampleEngine,
      engine_modernizeJS = exampleEngine,
      PatchError_detect = (\<lambda>e. case e of SyntaxProblem m \<Rightarrow> True | _ \<Rightarrow> False),
      PatchError_prettyPrint = (\<lambda>e. case e of SyntaxProblem m \<Rightarrow> m | _ \<Rightarrow> []),
      buffer_toString = exampleDecode\<rparr>"

definition convertMode :: CLIOptions where
  "convertMode = \<lparr>paths = [], baseOptions = noOptions, modernizeJS = False\<rparr>"

definition modernizeMode :: CLIOptions where
  "modernizeMode = \<lparr>paths = [], baseOptions = noOptions, modernizeJS = True\<rparr>"

text \<open>
  A directory \<^verbatim>\<open>D\<close> with a text file and two scripts; a directory \<^verbatim>\<open>N\<close>
  with a script and a directory whose own name ends in \<^verbatim>\<open>.coffee\<close>; and five
  scripts beside them, one of which the engine rejects and one of which has a directory
  where its output belongs; a directory \<^verbatim>\<open>lib\<close> with a JavaScript file; and a
  directory \<^verbatim>\<open>B\<close> whose first script the engine rejects.
  \<^verbatim>\<open>missing.coffee\<close> does not exist.
\<close>

definition exampleTree :: tree where
  "exampleTree =
     [(''D'', Directory [''notes.txt'', ''x.coffee'', ''y.coffee'']),
      (''D/notes.txt'', File ''notes''),
      (''D/x.coffee'', File ''x = 1''),
      (''D/y.coffee'', File ''y = 2''),
      (''N'', Directory [''sub.coffee'', ''top.coffee'']),
      (''N/sub.coffee'', Directory [''deep.coffee'']),
      (''N/sub.coffee/deep.coffee'', File ''deep = 0''),
      (''N/top.coffee'', File ''top = 1''),
      (''a.coffee'', File ''a = 1''),
      (''bad.coffee'', File ''syntax error''),
      (''c.coffee'', File ''c = 3''),
      (''w.coffee'', File ''w = 23''),
      (''w.js'', Directory []),
      (''z.coffee'', File ''z = 26''),
      (''lib'', Directory [''util.js'']),
      (''lib/util.js'', File ''var u''),
      (''B'', Directory [''bad.coffee'', ''good.coffee'']),
      (''B/bad.coffee'', File ''syntax error''),
      (''B/good.coffee'', File ''good = 1'')]"

section \<open>The path functions on the examples of the Node.js documentation\<close>

lemma documented_extname:
  "extname ''index.html'' = ''.html'' \<and> extname ''index.coffee.md'' = ''.md'' \<and>
   extname ''index.'' = ''.'' \<and> extname ''index'' = [] \<and>
   extname ''.index'' = [] \<and> extname ''.index.md'' = ''.md''"
  by code_simp

lemma documented_basename:
  "basename ''/foo/bar/baz/asdf/quux.html'' [] = ''quux.html'' \<and>
   basename ''/foo/bar/baz/asdf/quux.html'' ''.html'' = ''quux''"
  by code_simp

lemma documented_dirname: "dirname ''/foo/bar/baz/asdf/quux'' = ''/foo/bar/baz/asdf''"
  by code_simp

lemma documented_normalize:
  "normalizePath ''/foo/bar//baz/asdf/quux/..'' = ''/foo/bar/baz/asdf''"
  by code_simp

lemma documented_join: "join ''/foo/bar'' ''baz/asdf/quux/..'' = ''/foo/bar/baz/asdf''"
  by code_simp

section \<open>Joining a directory and a plain name\<close>

text \<open>
  \<^verbatim>\<open>join(d, c)\<close> for a plain name \<open>c\<close> is a prefix that depends on \<open>d\<close> only,
  followed by \<open>c\<close>; so different plain names give different paths.
\<close>

lemma splitOn_not_Nil: "splitOn sep s \<noteq> []"
  by (induction s) (simp_all split: list.splits)

lemma splitOn_no_sep: "sep \<notin> set s \<Longrightarrow> splitOn sep s = [s]"
  by (induction s) auto

lemma splitOn_split: "splitOn sep (a @ sep # b) = splitOn sep a @ splitOn sep b"
proof (induction a)
  case Nil
  show ?case by simp
next
  case (Cons c a)
  show ?case
  proof (cases "c = sep")
    case True
    with Cons show ?thesis by simp
  next
    case False
    obtain x xs where x: "splitOn sep a = x # xs"
      using splitOn_not_Nil [of sep a] by (cases "splitOn sep a") auto
    with Cons False show ?thesis by simp
  qed
qed

lemma segments_child:
  "CHR ''/'' \<notin> set c \<Longrightarrow> segments (d @ CHR ''/'' # c) = segments d @ [c]"
  by (simp add: segments_def splitOn_split splitOn_no_sep)

lemma unsegments_snoc:
  "unsegments (xs @ [c]) = (if xs = [] then c else unsegments xs @ CHR ''/'' # c)"
  by (induction xs rule: unsegments.induct) simp_all

lemma normalizeStep_plain:
  "plainName c \<Longrightarrow> normalizeStep allow res c = res @ [c]"
  by (simp add: normalizeStep_def plainName_def)

lemma last_plain: "plainName c \<Longrightarrow> last c \<noteq> CHR ''/''"
proof
  assume p: "plainName c" and l: "last c = CHR ''/''"
  from p have "c \<noteq> []" by (simp add: plainName_def)
  then have "last c \<in> set c" by (rule last_in_set)
  with p l show False by (simp add: plainName_def)
qed

lemma hd_plain: "plainName c \<Longrightarrow> hd c \<noteq> CHR ''/''"
  by (cases c) (auto simp add: plainName_def)

lemma join_child_explicit:
  assumes "d \<noteq> []" and "plainName c"
  shows "join d c =
           (if hd d = CHR ''/'' then [CHR ''/''] else []) @
           (if foldl (normalizeStep (hd d \<noteq> CHR ''/'')) [] (segments d) = [] then []
            else unsegments (foldl (normalizeStep (hd d \<noteq> CHR ''/'')) [] (segments d)) @
                 [CHR ''/'']) @ c"
proof -
  let ?abs = "hd d = CHR ''/''"
  let ?stack = "foldl (normalizeStep (\<not> ?abs)) [] (segments d)"
  from assms(2) have ne: "c \<noteq> []" and ns: "CHR ''/'' \<notin> set c"
    by (simp_all add: plainName_def)
  have hd: "hd (d @ CHR ''/'' # c) = hd d" using assms(1) by simp
  have la: "last (d @ CHR ''/'' # c) \<noteq> CHR ''/''" using ne last_plain [OF assms(2)] by simp
  have q: "normalizeString (d @ CHR ''/'' # c) (\<not> ?abs) =
           (if ?stack = [] then c else unsegments ?stack @ CHR ''/'' # c)"
    using assms(2) ns
    by (simp add: normalizeString_def segments_child normalizeStep_plain unsegments_snoc)
  with ne have qne: "normalizeString (d @ CHR ''/'' # c) (\<not> ?abs) \<noteq> []" by simp
  from assms(1) ne have "join d c = normalizePath (d @ CHR ''/'' # c)" by (simp add: join_def)
  also have "\<dots> = (if ?abs then [CHR ''/''] else []) @
           (if ?stack = [] then [] else unsegments ?stack @ [CHR ''/'']) @ c"
    using hd la q qne by (simp add: normalizePath_def Let_def)
  finally show ?thesis by simp
qed

lemma join_empty_child:
  assumes "plainName c"
  shows "join [] c = c"
proof -
  from assms have ne: "c \<noteq> []" and ns: "CHR ''/'' \<notin> set c"
    by (simp_all add: plainName_def)
  have "normalizeString c True = c"
    using assms ns
    by (simp add: normalizeString_def segments_def splitOn_no_sep normalizeStep_plain)
  with ne hd_plain [OF assms] last_plain [OF assms] show ?thesis
    by (simp add: join_def normalizePath_def Let_def)
qed

lemma join_plain_child:
  "\<exists>pre. \<forall>c. plainName c \<longrightarrow> join d c = pre @ c"
proof (cases "d = []")
  case True
  then have "\<forall>c. plainName c \<longrightarrow> join d c = [] @ c"
    by (simp add: join_empty_child)
  then show ?thesis by blast
next
  case False
  let ?pre = "(if hd d = CHR ''/'' then [CHR ''/''] else []) @
              (if foldl (normalizeStep (hd d \<noteq> CHR ''/'')) [] (segments d) = [] then []
               else unsegments (foldl (normalizeStep (hd d \<noteq> CHR ''/'')) [] (segments d)) @
                    [CHR ''/''])"
  have "\<forall>c. plainName c \<longrightarrow> join d c = ?pre @ c"
    using join_child_explicit [OF False] by simp
  then show ?thesis by blast
qed

lemma join_plain_inj:
  "plainName c \<Longrightarrow> plainName c' \<Longrightarrow> join d c = join d c' \<Longrightarrow> c = c'"
  using join_plain_child [of d] by auto

section \<open>The parts of a path\<close>

lemma dropWhile_hd: "xs \<noteq> [] \<Longrightarrow> \<not> P (hd xs) \<Longrightarrow> dropWhile P xs = xs"
  by (cases xs) simp_all

lemma takeWhile_hd: "xs = [] \<or> \<not> P (hd xs) \<Longrightarrow> takeWhile P xs = []"
  by (cases xs) auto

lemma takeWhile_all_append:
  "\<forall>x \<in> set xs. P x \<Longrightarrow> takeWhile P (xs @ ys) = xs @ takeWhile P ys"
  by (induction xs) auto

lemma dropWhile_all_append:
  "\<forall>x \<in> set xs. P x \<Longrightarrow> dropWhile P (xs @ ys) = dropWhile P ys"
  by (induction xs) auto

lemma takeWhile_until: "\<forall>x \<in> set xs. P x \<Longrightarrow> \<not> P y \<Longrightarrow> takeWhile P (xs @ y # ys) = xs"
  by (induction xs) auto

text \<open>A path that ends in a component \<open>name\<close> after a prefix that is empty or ends in a slash.\<close>

lemma rev_component:
  assumes "pre = [] \<or> last pre = CHR ''/''" and "name \<noteq> []" and "CHR ''/'' \<notin> set name"
  shows "dropWhile (\<lambda>c. c = CHR ''/'') (rev (pre @ name)) = rev name @ rev pre"
    and "takeWhile (\<lambda>c. c \<noteq> CHR ''/'') (rev name @ rev pre) = rev name"
    and "dropWhile (\<lambda>c. c \<noteq> CHR ''/'') (rev name @ rev pre) = rev pre"
proof -
  from assms(2) have "last name \<in> set name" by (rule last_in_set)
  with assms(3) have "last name \<noteq> CHR ''/''" by metis
  with assms(2) have "hd (rev name) \<noteq> CHR ''/''" by (simp add: hd_rev)
  with assms(2) show "dropWhile (\<lambda>c. c = CHR ''/'') (rev (pre @ name)) = rev name @ rev pre"
    by (simp add: dropWhile_hd)
  have all: "\<forall>x \<in> set (rev name). x \<noteq> CHR ''/''"
    using assms(3) by auto
  have pre: "rev pre = [] \<or> \<not> (hd (rev pre) \<noteq> CHR ''/'')"
    using assms(1) by (auto simp add: hd_rev)
  from all have "takeWhile (\<lambda>c. c \<noteq> CHR ''/'') (rev name @ rev pre) =
                 rev name @ takeWhile (\<lambda>c. c \<noteq> CHR ''/'') (rev pre)"
    by (rule takeWhile_all_append)
  moreover have "takeWhile (\<lambda>c. c \<noteq> CHR ''/'') (rev pre) = []"
    using pre by (cases "rev pre") auto
  ultimately show "takeWhile (\<lambda>c. c \<noteq> CHR ''/'') (rev name @ rev pre) = rev name"
    by simp
  from all have "dropWhile (\<lambda>c. c \<noteq> CHR ''/'') (rev name @ rev pre) =
                 dropWhile (\<lambda>c. c \<noteq> CHR ''/'') (rev pre)"
    by (rule dropWhile_all_append)
  also have "\<dots> = rev pre"
    using pre by (cases "rev pre") auto
  finally show "dropWhile (\<lambda>c. c \<noteq> CHR ''/'') (rev name @ rev pre) = rev pre" .
qed

lemma lastComponent_pre:
  assumes "pre = [] \<or> last pre = CHR ''/''" and "name \<noteq> []" and "CHR ''/'' \<notin> set name"
  shows "lastComponent (pre @ name) = name"
  using rev_component [OF assms] by (simp add: lastComponent_def)

lemma extname_pre:
  assumes "pre = [] \<or> last pre = CHR ''/''" and "stem \<noteq> []" and "CHR ''/'' \<notin> set stem"
      and "CHR ''/'' \<notin> set e" and "CHR ''.'' \<notin> set e" and "stem @ CHR ''.'' # e \<noteq> ''..''"
  shows "extname (pre @ stem @ CHR ''.'' # e) = CHR ''.'' # e"
proof -
  let ?name = "stem @ CHR ''.'' # e"
  have comp: "lastComponent (pre @ ?name) = ?name"
    using assms by (intro lastComponent_pre) auto
  have "\<forall>x \<in> set (rev e). x \<noteq> CHR ''.''" using assms(5) by auto
  then have "takeWhile (\<lambda>c. c \<noteq> CHR ''.'') (rev e @ CHR ''.'' # rev stem) = rev e"
    by (rule takeWhile_until) simp
  then have ext: "rev (takeWhile (\<lambda>c. c \<noteq> CHR ''.'') (rev ?name)) = e"
    by simp
  from assms(2) have len: "length e + 1 \<noteq> length ?name" by simp
  from comp ext len assms(6) show ?thesis
    by (simp add: extname_def Let_def)
qed


lemma basename_pre:
  assumes "pre = [] \<or> last pre = CHR ''/''" and "stem \<noteq> []" and "CHR ''/'' \<notin> set stem"
      and "suf \<noteq> []" and "CHR ''/'' \<notin> set suf"
  shows "basename (pre @ stem @ suf) suf = stem"
proof -
  have n: "stem @ suf \<noteq> []" "CHR ''/'' \<notin> set (stem @ suf)" using assms by auto
  note rc = rev_component [OF assms(1) n]
  have r: "dropWhile (\<lambda>c. c = CHR ''/'') (rev (pre @ stem @ suf)) = rev (stem @ suf) @ rev pre"
    using rc(1) by simp
  have c: "takeWhile (\<lambda>c. c \<noteq> CHR ''/'') (rev (stem @ suf) @ rev pre) = rev (stem @ suf)"
    using rc(2) .
  have neq: "suf \<noteq> pre @ stem @ suf" using assms(2) by simp
  show ?thesis
    unfolding basename_def Let_def r c
    using assms(2,4) neq by simp
qed

lemma dirname_name:
  assumes "name \<noteq> []" and "CHR ''/'' \<notin> set name"
  shows "dirname name = ''.''"
proof -
  have h: "hd name \<noteq> CHR ''/''" using assms by (cases name) auto
  have "dropWhile (\<lambda>c. c = CHR ''/'') (rev name) = rev name"
    using rev_component(1) [of "[]" name] assms by simp
  moreover have "dropWhile (\<lambda>c. c \<noteq> CHR ''/'') (rev name) = []"
    using assms by auto
  ultimately have r: "dropWhile (\<lambda>c. c \<noteq> CHR ''/'') (dropWhile (\<lambda>c. c = CHR ''/'') (rev name)) = []"
    by simp
  show ?thesis
    unfolding dirname_def Let_def r using assms(1) h by simp
qed

lemma dirname_root:
  assumes "name \<noteq> []" and "CHR ''/'' \<notin> set name"
  shows "dirname (CHR ''/'' # name) = ''/''"
proof -
  have "dropWhile (\<lambda>c. c = CHR ''/'') (rev (''/'' @ name)) = rev name @ rev ''/''"
    using assms by (intro rev_component(1)) simp_all
  moreover have "dropWhile (\<lambda>c. c \<noteq> CHR ''/'') (rev name @ rev ''/'') = rev ''/''"
    using assms by (intro rev_component(3)) simp_all
  ultimately have r: "dropWhile (\<lambda>c. c \<noteq> CHR ''/'')
          (dropWhile (\<lambda>c. c = CHR ''/'') (rev (CHR ''/'' # name))) = ''/''"
    by simp
  show ?thesis
    unfolding dirname_def Let_def r by simp
qed

lemma dirname_pre:
  assumes "pre \<noteq> []" and "last pre = CHR ''/''" and "name \<noteq> []" and "CHR ''/'' \<notin> set name"
      and "2 < length pre \<or> (length pre = 2 \<and> hd pre \<noteq> CHR ''/'')"
  shows "dirname (pre @ name) = butlast pre"
proof -
  have "dropWhile (\<lambda>c. c = CHR ''/'') (rev (pre @ name)) = rev name @ rev pre"
    using assms by (intro rev_component(1)) simp_all
  moreover have "dropWhile (\<lambda>c. c \<noteq> CHR ''/'') (rev name @ rev pre) = rev pre"
    using assms by (intro rev_component(3)) simp_all
  ultimately have r: "dropWhile (\<lambda>c. c \<noteq> CHR ''/'')
       (dropWhile (\<lambda>c. c = CHR ''/'') (rev (pre @ name))) = rev pre"
    by simp
  have hd: "hd (pre @ name) = hd pre" using assms(1) by simp
  have tk: "take (length pre - 1) (pre @ name) = butlast pre"
    by (simp add: butlast_conv_take)
  have ne: "pre @ name \<noteq> []" using assms(1) by simp
  show ?thesis
    unfolding dirname_def Let_def r hd length_rev
    using assms(5) ne tk by auto
qed

section \<open>Normalized paths\<close>

lemma segments_unsegments:
  "xs \<noteq> [] \<Longrightarrow> \<forall>x \<in> set xs. CHR ''/'' \<notin> set x \<Longrightarrow> segments (unsegments xs) = xs"
proof (induction xs rule: unsegments.induct)
  case 1
  then show ?case by simp
next
  case (2 s)
  then show ?case by (simp add: segments_def splitOn_no_sep)
next
  case (3 s t ss)
  then have "segments (unsegments (t # ss)) = t # ss" by simp
  with 3 show ?case
    by (simp add: segments_def splitOn_split splitOn_no_sep)
qed

lemma foldl_normalizeStep_plain:
  "\<forall>x \<in> set xs. plainName x \<Longrightarrow> foldl (normalizeStep allow) acc xs = acc @ xs"
  by (induction xs arbitrary: acc) (simp_all add: normalizeStep_plain)

lemma foldl_normalizeStep_ups:
  "acc = [] \<or> last acc = ''..'' \<Longrightarrow>
   foldl (normalizeStep True) acc (replicate k ''..'') = acc @ replicate k ''..''"
proof (induction k arbitrary: acc)
  case 0
  show ?case by simp
next
  case (Suc k)
  from Suc.prems have "normalizeStep True acc ''..'' = acc @ [''..'']"
    by (auto simp add: normalizeStep_def)
  with Suc.IH [of "acc @ [''..'']"] show ?case
    by (simp add: replicate_app_Cons_same)
qed

text \<open>
  The directories of a normalized path: some \<^verbatim>\<open>..\<close> first, in a relative path only,
  and plain names after them.
\<close>

lemma foldl_normalizeStep_normal:
  assumes "\<forall>x \<in> set dirs. plainName x" and "absolute \<longrightarrow> ups = 0"
  shows "foldl (normalizeStep (\<not> absolute)) [] (replicate ups ''..'' @ dirs) =
         replicate ups ''..'' @ dirs"
proof (cases absolute)
  case True
  with assms show ?thesis by (simp add: foldl_normalizeStep_plain)
next
  case False
  with assms(1) foldl_normalizeStep_ups [of "[]" ups] show ?thesis
    by (simp add: foldl_normalizeStep_plain)
qed

lemma plain_no_slash: "plainName x \<Longrightarrow> CHR ''/'' \<notin> set x"
  by (simp add: plainName_def)

lemma hd_unsegments: "xs \<noteq> [] \<Longrightarrow> hd xs \<noteq> [] \<Longrightarrow> hd (unsegments xs) = hd (hd xs)"
  by (induction xs rule: unsegments.induct) simp_all

lemma unsegments_not_Nil: "xs \<noteq> [] \<Longrightarrow> hd xs \<noteq> [] \<Longrightarrow> unsegments xs \<noteq> []"
  by (induction xs rule: unsegments.induct) simp_all

lemma join_dot: "plainName c \<Longrightarrow> join ''.'' c = c"
  by (simp add: join_child_explicit segments_def normalizeStep_def)

lemma join_root: "plainName c \<Longrightarrow> join ''/'' c = CHR ''/'' # c"
  by (simp add: join_child_explicit segments_def normalizeStep_def)

lemma hd_dir:
  assumes "ds \<noteq> []" and "\<forall>x \<in> set ds. x \<noteq> [] \<and> CHR ''/'' \<notin> set x"
  shows "unsegments ds \<noteq> []" and "hd (unsegments ds) \<noteq> CHR ''/''"
proof -
  from assms(1) have "hd ds \<in> set ds" by simp
  with assms(2) have h: "hd ds \<noteq> []" "CHR ''/'' \<notin> set (hd ds)" by blast+
  then have "hd (hd ds) \<in> set (hd ds)" by simp
  with h have "hd (hd ds) \<noteq> CHR ''/''" by metis
  with assms(1) h(1) show "unsegments ds \<noteq> []" and "hd (unsegments ds) \<noteq> CHR ''/''"
    by (simp_all add: unsegments_not_Nil hd_unsegments)
qed

lemma join_dirs:
  assumes "ds \<noteq> []" and "\<forall>x \<in> set ds. x \<noteq> [] \<and> CHR ''/'' \<notin> set x"
      and "foldl (normalizeStep (\<not> absolute)) [] ds = ds" and "plainName c"
  shows "join ((if absolute then ''/'' else []) @ unsegments ds) c =
         (if absolute then ''/'' else []) @ unsegments (ds @ [c])"
proof -
  let ?d = "(if absolute then ''/'' else []) @ unsegments ds"
  note une = hd_dir [OF assms(1,2)]
  from une have dne: "?d \<noteq> []" by simp
  from une have abs: "(hd ?d = CHR ''/'') = absolute" by simp
  from assms(1,2) have seg: "segments (unsegments ds) = ds"
    by (intro segments_unsegments) auto
  then have segd: "segments ?d = (if absolute then [[]] else []) @ ds"
    by (simp add: segments_def)
  have "foldl (normalizeStep (\<not> absolute)) [] (segments ?d) =
        foldl (normalizeStep (\<not> absolute)) [] ds"
    unfolding segd by (simp add: normalizeStep_def)
  with assms(3) have st: "foldl (normalizeStep (\<not> absolute)) [] (segments ?d) = ds"
    by simp
  have "join ?d c = (if absolute then [CHR ''/''] else []) @
           (if ds = [] then [] else unsegments ds @ [CHR ''/'']) @ c"
    using join_child_explicit [OF dne assms(4)] unfolding abs st by simp
  with assms(1) show ?thesis
    by (simp add: unsegments_snoc)
qed

lemma plainPath_split:
  "plainPath absolute dirs name =
     ((if absolute then ''/'' else []) @ (if dirs = [] then [] else unsegments dirs @ ''/'')) @ name"
  by (simp add: plainPath_def unsegments_snoc)

lemma plainPath_append: "plainPath absolute dirs name @ e = plainPath absolute dirs (name @ e)"
  by (simp add: plainPath_split)

lemma dirname_plainPath:
  assumes "\<forall>x \<in> set ds. x \<noteq> [] \<and> CHR ''/'' \<notin> set x"
      and "name \<noteq> []" and "CHR ''/'' \<notin> set name"
  shows "dirname (plainPath absolute ds name) =
           (if ds = [] then (if absolute then ''/'' else ''.'')
            else (if absolute then ''/'' else []) @ unsegments ds)"
proof (cases "ds = []")
  case True
  with assms show ?thesis
    by (simp add: plainPath_def dirname_name dirname_root)
next
  case False
  let ?pre = "(if absolute then ''/'' else []) @ unsegments ds @ ''/''"
  note une = hd_dir [OF False assms(1)]
  from une have len: "2 < length ?pre \<or> (length ?pre = 2 \<and> hd ?pre \<noteq> CHR ''/'')"
    by (cases "unsegments ds") auto
  have "dirname (?pre @ name) = butlast ?pre"
    using assms(2,3) len by (intro dirname_pre) simp_all
  moreover have "butlast ?pre = (if absolute then ''/'' else []) @ unsegments ds"
    by (simp add: butlast_append)
  moreover have "plainPath absolute ds name = ?pre @ name"
    using False by (simp add: plainPath_split)
  ultimately show ?thesis using False by simp
qed

lemma outputPath_plainPath:
  assumes ds: "\<forall>x \<in> set ds. x \<noteq> [] \<and> CHR ''/'' \<notin> set x"
      and norm: "foldl (normalizeStep (\<not> absolute)) [] ds = ds"
      and stem: "plainName stem"
      and ext: "extension (plainPath absolute ds (stem @ ext)) = ext"
      and ne: "ext \<noteq> []" and ns: "CHR ''/'' \<notin> set ext"
  shows "outputPath (plainPath absolute ds (stem @ ext)) = plainPath absolute ds (stem @ ''.js'')"
proof -
  from stem have s: "stem \<noteq> []" "CHR ''/'' \<notin> set stem" by (simp_all add: plainName_def)
  have base: "basename (plainPath absolute ds (stem @ ext)) ext = stem"
    unfolding plainPath_split
    using s ne ns by (intro basename_pre) simp_all
  have dir: "dirname (plainPath absolute ds (stem @ ext)) =
           (if ds = [] then (if absolute then ''/'' else ''.'')
            else (if absolute then ''/'' else []) @ unsegments ds)"
    using ds s ns by (intro dirname_plainPath) simp_all
  have "join (dirname (plainPath absolute ds (stem @ ext))) stem = plainPath absolute ds stem"
  proof (cases "ds = []")
    case True
    with stem show ?thesis
      unfolding dir by (simp add: join_dot join_root plainPath_def)
  next
    case False
    with join_dirs [OF False ds norm stem] show ?thesis
      unfolding dir by (simp add: plainPath_def)
  qed
  with base ext show ?thesis
    by (simp add: outputPath_def plainPath_append)
qed


lemma splitOn_pieces: "\<forall>x \<in> set (splitOn sep s). sep \<notin> set x"
proof (induction s)
  case Nil
  show ?case by simp
next
  case (Cons c s)
  obtain x xs where x: "splitOn sep s = x # xs"
    using splitOn_not_Nil [of sep s] by (cases "splitOn sep s") auto
  with Cons show ?case by auto
qed

lemma normalizeStep_shape:
  assumes st: "st = replicate k ''..'' @ plains"
      and pl: "\<forall>x \<in> set plains. plainName x"
      and up: "\<not> allow \<longrightarrow> k = 0"
      and seg: "CHR ''/'' \<notin> set seg"
  shows "\<exists>k' plains'. normalizeStep allow st seg = replicate k' ''..'' @ plains' \<and>
           (\<forall>x \<in> set plains'. plainName x) \<and> (\<not> allow \<longrightarrow> k' = 0)"
proof -
  consider (skip) "seg = [] \<or> seg = ''.''" | (up) "seg = ''..''" | (name) "plainName seg"
    using seg by (auto simp add: plainName_def)
  then show ?thesis
  proof cases
    case skip
    then have "normalizeStep allow st seg = st" by (auto simp add: normalizeStep_def)
    with st pl up show ?thesis by blast
  next
    case name
    then have "normalizeStep allow st seg = replicate k ''..'' @ (plains @ [seg])"
      by (simp add: normalizeStep_plain st)
    moreover from pl name have "\<forall>x \<in> set (plains @ [seg]). plainName x" by simp
    ultimately show ?thesis using up by blast
  next
    case up
    show ?thesis
    proof (cases "plains = []")
      case True
      with st have all: "st = replicate k ''..''" by simp
      then have "st = [] \<or> last st = ''..''" by (cases k) simp_all
      with up have ns: "normalizeStep allow st seg = (if allow then st @ [''..''] else st)"
        by (simp add: normalizeStep_def)
      have none: "\<forall>x \<in> set ([] :: string list). plainName x" by simp
      show ?thesis
      proof (cases allow)
        case True
        with ns all have "normalizeStep allow st seg = replicate (Suc k) ''..'' @ []"
          by (simp add: replicate_append_same)
        with none True show ?thesis by blast
      next
        case False
        with ns all have "normalizeStep allow st seg = replicate k ''..'' @ []" by simp
        with none \<open>\<not> allow \<longrightarrow> k = 0\<close> show ?thesis by blast
      qed
    next
      case False
      with st have ne: "st \<noteq> []" and la: "last st = last plains" by simp_all
      from False pl have "plainName (last plains)" by simp
      with la have "last st \<noteq> ''..''" by (simp add: plainName_def)
      with ne up have "normalizeStep allow st seg = butlast st"
        by (simp add: normalizeStep_def)
      also have "\<dots> = replicate k ''..'' @ butlast plains"
        using False st by (simp add: butlast_append)
      finally have "normalizeStep allow st seg = replicate k ''..'' @ butlast plains" .
      moreover from pl have "\<forall>x \<in> set (butlast plains). plainName x"
        by (meson in_set_butlastD)
      ultimately show ?thesis using \<open>\<not> allow \<longrightarrow> k = 0\<close> by blast
    qed
  qed
qed

lemma foldl_normalizeStep_shape:
  assumes "\<forall>x \<in> set segs. CHR ''/'' \<notin> set x"
      and "st = replicate k ''..'' @ plains"
      and "\<forall>x \<in> set plains. plainName x"
      and "\<not> allow \<longrightarrow> k = 0"
  shows "\<exists>k' plains'. foldl (normalizeStep allow) st segs = replicate k' ''..'' @ plains' \<and>
           (\<forall>x \<in> set plains'. plainName x) \<and> (\<not> allow \<longrightarrow> k' = 0)"
  using assms
proof (induction segs arbitrary: st k plains)
  case Nil
  then show ?case by auto
next
  case (Cons seg segs)
  from Cons.prems have "CHR ''/'' \<notin> set seg" by simp
  from normalizeStep_shape [OF Cons.prems(2,3,4) this]
  obtain k' plains' where "normalizeStep allow st seg = replicate k' ''..'' @ plains'"
    and "\<forall>x \<in> set plains'. plainName x" and "\<not> allow \<longrightarrow> k' = 0"
    by blast
  note next_shape = this
  have rest: "\<forall>x \<in> set segs. CHR ''/'' \<notin> set x" using Cons.prems(1) by simp
  from Cons.IH [OF rest next_shape] show ?case by simp
qed

text \<open>The directories that normalizing a path leaves are not changed by normalizing again.\<close>

lemma stack_normal:
  fixes d :: path
  defines "st \<equiv> foldl (normalizeStep (hd d \<noteq> CHR ''/'')) [] (segments d)"
  shows "(\<forall>x \<in> set st. x \<noteq> [] \<and> CHR ''/'' \<notin> set x) \<and>
         foldl (normalizeStep (hd d \<noteq> CHR ''/'')) [] st = st"
proof -
  have "\<forall>x \<in> set (segments d). CHR ''/'' \<notin> set x"
    by (simp add: segments_def splitOn_pieces)
  then have "\<exists>k plains. foldl (normalizeStep (hd d \<noteq> CHR ''/'')) [] (segments d) =
                 replicate k ''..'' @ plains \<and>
               (\<forall>x \<in> set plains. plainName x) \<and> (\<not> hd d \<noteq> CHR ''/'' \<longrightarrow> k = 0)"
    by (rule foldl_normalizeStep_shape [where k = 0 and plains = "[]"]) simp_all
  then obtain k plains where sh: "st = replicate k ''..'' @ plains"
    and pl: "\<forall>x \<in> set plains. plainName x" and up: "\<not> hd d \<noteq> CHR ''/'' \<longrightarrow> k = 0"
    unfolding st_def by blast
  have a: "\<forall>x \<in> set st. x \<noteq> [] \<and> CHR ''/'' \<notin> set x"
  proof
    fix x assume "x \<in> set st"
    then have "x = ''..'' \<or> plainName x" using pl unfolding sh by auto
    then show "x \<noteq> [] \<and> CHR ''/'' \<notin> set x" by (auto simp add: plainName_def)
  qed
  from up have "(hd d = CHR ''/'') \<longrightarrow> k = 0" by simp
  from foldl_normalizeStep_normal [OF pl this]
  have b: "foldl (normalizeStep (hd d \<noteq> CHR ''/'')) [] st = st"
    unfolding sh .
  from a b show ?thesis by (rule conjI)
qed

lemma join_child_plainPath:
  assumes "d \<noteq> []"
  shows "\<exists>ds. (\<forall>x \<in> set ds. x \<noteq> [] \<and> CHR ''/'' \<notin> set x) \<and>
              foldl (normalizeStep (hd d \<noteq> CHR ''/'')) [] ds = ds \<and>
              (\<forall>c. plainName c \<longrightarrow> join d c = plainPath (hd d = CHR ''/'') ds c)"
proof -
  let ?st = "foldl (normalizeStep (hd d \<noteq> CHR ''/'')) [] (segments d)"
  have "join d c = plainPath (hd d = CHR ''/'') ?st c" if "plainName c" for c
    using join_child_explicit [OF assms that] by (simp add: plainPath_split)
  with stack_normal [of d] show ?thesis by blast
qed

section \<open>The extension and the output path of a plain path\<close>

lemma endsWith_append: "endsWith (a @ suf) suf"
  by (simp add: endsWith_def)

lemma endsWith_last: "endsWith s suf \<Longrightarrow> suf \<noteq> [] \<Longrightarrow> last s = last suf"
proof -
  assume e: "endsWith s suf" and ne: "suf \<noteq> []"
  then have d: "drop (length s - length suf) s = suf" and l: "length suf \<le> length s"
    by (simp_all add: endsWith_def)
  from ne l have "length s - length suf < length s" by (cases suf) auto
  then have "last (drop (length s - length suf) s) = last s" by (rule last_drop)
  with d show ?thesis by simp
qed

lemma not_dotdot: "plainName stem \<Longrightarrow> stem @ CHR ''.'' # e \<noteq> ''..''"
proof (cases stem)
  case Nil
  assume "plainName stem"
  with Nil show ?thesis by (simp add: plainName_def)
next
  case (Cons x xs)
  assume p: "plainName stem"
  show ?thesis
  proof (cases xs)
    case Nil
    with Cons p show ?thesis by (auto simp add: plainName_def)
  next
    case (Cons y ys)
    with \<open>stem = x # xs\<close> show ?thesis by simp
  qed
qed

lemma extension_plainPath:
  assumes "plainName stem" and "CHR ''.'' \<notin> set e" and "CHR ''/'' \<notin> set e"
      and "\<not> endsWith (plainPath absolute ds (stem @ CHR ''.'' # e)) ''.coffee.md''"
  shows "extension (plainPath absolute ds (stem @ CHR ''.'' # e)) = CHR ''.'' # e"
proof -
  from assms(1) have s: "stem \<noteq> []" "CHR ''/'' \<notin> set stem" by (simp_all add: plainName_def)
  have "extname (plainPath absolute ds (stem @ CHR ''.'' # e)) = CHR ''.'' # e"
    unfolding plainPath_split
    using s assms(2,3) not_dotdot [OF assms(1)] by (intro extname_pre) simp_all
  with assms(4) show ?thesis by (simp add: extension_def)
qed

lemma extension_literate:
  "extension (plainPath absolute ds (stem @ ''.coffee.md'')) = ''.coffee.md''"
  using endsWith_append [of "plainPath absolute ds stem" "''.coffee.md''"]
  by (simp add: extension_def plainPath_append)

lemma not_literate_js: "\<not> endsWith (plainPath absolute ds (stem @ ''.js'')) ''.coffee.md''"
proof
  assume "endsWith (plainPath absolute ds (stem @ ''.js'')) ''.coffee.md''"
  then have "last (plainPath absolute ds (stem @ ''.js'')) = last ''.coffee.md''"
    by (rule endsWith_last) simp
  then show False by (simp add: plainPath_split)
qed


lemma plain_dirs_normal:
  assumes "\<forall>x \<in> set dirs. plainName x" and "absolute \<longrightarrow> ups = 0"
  shows "\<forall>x \<in> set (replicate ups ''..'' @ dirs). x \<noteq> [] \<and> CHR ''/'' \<notin> set x"
    and "foldl (normalizeStep (\<not> absolute)) [] (replicate ups ''..'' @ dirs) =
         replicate ups ''..'' @ dirs"
proof -
  show "\<forall>x \<in> set (replicate ups ''..'' @ dirs). x \<noteq> [] \<and> CHR ''/'' \<notin> set x"
  proof
    fix x assume "x \<in> set (replicate ups ''..'' @ dirs)"
    then have "x = ''..'' \<or> plainName x" using assms(1) by auto
    then show "x \<noteq> [] \<and> CHR ''/'' \<notin> set x" by (auto simp add: plainName_def)
  qed
  show "foldl (normalizeStep (\<not> absolute)) [] (replicate ups ''..'' @ dirs) =
         replicate ups ''..'' @ dirs"
    using assms by (rule foldl_normalizeStep_normal)
qed

lemma outputPath_js:
  assumes "\<forall>x \<in> set ds. x \<noteq> [] \<and> CHR ''/'' \<notin> set x"
      and "foldl (normalizeStep (\<not> absolute)) [] ds = ds"
      and "plainName stem"
  shows "outputPath (plainPath absolute ds (stem @ ''.js'')) = plainPath absolute ds (stem @ ''.js'')"
proof -
  have "extension (plainPath absolute ds (stem @ CHR ''.'' # ''js'')) = CHR ''.'' # ''js''"
    using assms(3) not_literate_js [of absolute ds stem]
    by (intro extension_plainPath) simp_all
  then have "extension (plainPath absolute ds (stem @ ''.js'')) = ''.js''" by simp
  with assms show ?thesis by (intro outputPath_plainPath) simp_all
qed

lemma plainName_js: "plainName stem \<Longrightarrow> plainName (stem @ ''.js'')"
  by (cases stem) (auto simp add: plainName_def)

text \<open>
  The base name that \<^verbatim>\<open>basename(p, ext)\<close> gives for the extension of \<open>p\<close> is the
  last component of \<open>p\<close> with the extension stripped, for every path but those that
  end in \<^verbatim>\<open>/.coffee.md\<close>.
\<close>

lemma length_lastComponent: "length (lastComponent p) \<le> length p"
proof -
  have "length (takeWhile (\<lambda>c. c \<noteq> CHR ''/'') (dropWhile (\<lambda>c. c = CHR ''/'') (rev p))) \<le>
        length (dropWhile (\<lambda>c. c = CHR ''/'') (rev p))"
    by (rule length_takeWhile_le)
  also have "\<dots> \<le> length (rev p)"
    by (rule length_dropWhile_le)
  finally show ?thesis by (simp add: lastComponent_def)
qed

lemma basename_component:
  assumes "lastComponent p = stem @ suf" and "stem \<noteq> []" and "suf \<noteq> []"
  shows "basename p suf = stem"
proof -
  from length_lastComponent [of p] assms(1,2) have len: "length suf < length p"
    by (cases stem) simp_all
  then have neq: "suf \<noteq> p" by auto
  from assms(1) have "rev (lastComponent p) = rev (stem @ suf)" by (rule arg_cong)
  then have c: "takeWhile (\<lambda>c. c \<noteq> CHR ''/'') (dropWhile (\<lambda>c. c = CHR ''/'') (rev p)) =
           rev suf @ rev stem"
    by (simp add: lastComponent_def)
  show ?thesis
    unfolding basename_def Let_def c
    using assms(2,3) len neq by simp
qed

lemma split_at_last:
  assumes "x \<in> set xs"
  shows "\<exists>pre. xs = pre @ x # rev (takeWhile (\<lambda>c. c \<noteq> x) (rev xs))"
proof -
  from assms have "x \<in> set (rev xs)" by simp
  from split_list_first [OF this]
  obtain ys zs where r: "rev xs = ys @ x # zs" and n: "x \<notin> set ys"
    by blast
  from n have "\<forall>c \<in> set ys. c \<noteq> x" by auto
  then have "takeWhile (\<lambda>c. c \<noteq> x) (ys @ x # zs) = ys"
    by (rule takeWhile_until) simp
  then have t: "takeWhile (\<lambda>c. c \<noteq> x) (rev xs) = ys"
    unfolding r .
  from r have "rev (rev xs) = rev (ys @ x # zs)" by (rule arg_cong)
  then have "xs = rev zs @ x # rev ys" by simp
  then show ?thesis unfolding t by blast
qed

lemma extname_component:
  assumes "extname p \<noteq> []"
  shows "\<exists>stem. stem \<noteq> [] \<and> lastComponent p = stem @ extname p"
proof -
  define comp where "comp = lastComponent p"
  define e where "e = rev (takeWhile (\<lambda>c. c \<noteq> CHR ''.'') (rev comp))"
  from assms have dot: "CHR ''.'' \<in> set comp"
    and len: "length e + 1 \<noteq> length comp"
    and ext: "extname p = CHR ''.'' # e"
    unfolding comp_def e_def
    by (simp_all add: extname_def Let_def split: if_splits)
  from split_at_last [OF dot] obtain pre where c: "comp = pre @ CHR ''.'' # e"
    unfolding e_def by blast
  with len have "pre \<noteq> []" by auto
  with c ext show ?thesis
    unfolding comp_def by (intro exI [of _ pre]) simp
qed

lemma suffix_component:
  assumes "suf \<noteq> []" and "CHR ''/'' \<notin> set suf"
  shows "lastComponent (q @ suf) = rev (takeWhile (\<lambda>c. c \<noteq> CHR ''/'') (rev q)) @ suf"
proof -
  from assms(1) have "last suf \<in> set suf" by (rule last_in_set)
  with assms(2) have "last suf \<noteq> CHR ''/''" by metis
  with assms(1) have "hd (rev suf @ rev q) \<noteq> CHR ''/''" by (simp add: hd_rev)
  then have "\<not> (hd (rev suf @ rev q) = CHR ''/'')" .
  with assms(1) have d: "dropWhile (\<lambda>c. c = CHR ''/'') (rev suf @ rev q) = rev suf @ rev q"
    by (intro dropWhile_hd) simp_all
  have "\<forall>x \<in> set (rev suf). x \<noteq> CHR ''/''" using assms(2) by auto
  then have t: "takeWhile (\<lambda>c. c \<noteq> CHR ''/'') (rev suf @ rev q) =
             rev suf @ takeWhile (\<lambda>c. c \<noteq> CHR ''/'') (rev q)"
    by (rule takeWhile_all_append)
  show ?thesis
    unfolding lastComponent_def rev_append d t by simp
qed

lemma endsWith_split: "endsWith s suf \<Longrightarrow> \<exists>q. s = q @ suf"
  by (metis append_take_drop_id endsWith_def)

lemma empty_stem:
  assumes "takeWhile (\<lambda>c. c \<noteq> CHR ''/'') (rev q) = []"
  shows "q = [] \<or> endsWith (q @ suf) (CHR ''/'' # suf)"
proof (cases q rule: rev_cases)
  case Nil
  then show ?thesis by simp
next
  case (snoc ys y)
  with assms have "y = CHR ''/''" by (simp split: if_splits)
  with snoc have "q @ suf = ys @ CHR ''/'' # suf" by simp
  then show ?thesis
    using endsWith_append [of ys "CHR ''/'' # suf"] by simp
qed

lemma stripSuffix_append: "stripSuffix suf (stem @ suf) = stem"
  by (simp add: stripSuffix_def endsWith_def)

lemma basename_stripSuffix:
  assumes "\<not> endsWith p ''/.coffee.md''"
  shows "basename p (extension p) =
         stripSuffix (if endsWith p ''.coffee.md'' then ''.coffee.md'' else extname p)
           (lastComponent p)"
proof (cases "endsWith p ''.coffee.md''")
  case True
  then obtain q where p: "p = q @ ''.coffee.md''"
    by (auto dest: endsWith_split)
  define stem where "stem = rev (takeWhile (\<lambda>c. c \<noteq> CHR ''/'') (rev q))"
  have comp: "lastComponent p = stem @ ''.coffee.md''"
    unfolding p stem_def by (rule suffix_component) simp_all
  have ext: "extension p = ''.coffee.md''"
    using True by (simp add: extension_def)
  show ?thesis
  proof (cases "stem = []")
    case False
    from comp False have "basename p ''.coffee.md'' = stem"
      by (rule basename_component) simp
    with True comp ext show ?thesis
      by (simp only: stripSuffix_append if_True)
  next
    case e: True
    then have "takeWhile (\<lambda>c. c \<noteq> CHR ''/'') (rev q) = []"
      by (simp add: stem_def)
    from empty_stem [OF this, of "''.coffee.md''"] assms p have "q = []"
      by simp
    with p have whole: "p = ''.coffee.md''" by simp
    have "basename ''.coffee.md'' ''.coffee.md'' = []"
      by (simp add: basename_def)
    moreover have "stripSuffix ''.coffee.md'' (lastComponent ''.coffee.md'') = []"
      by (simp add: stripSuffix_def endsWith_def lastComponent_def)
    ultimately show ?thesis
      using True ext unfolding whole by (simp only: if_True)
  qed
next
  case False
  then have ext: "extension p = extname p" by (simp add: extension_def)
  show ?thesis
  proof (cases "extname p = []")
    case True
    have "basename p [] = lastComponent p"
      by (simp add: basename_def)
    moreover have "stripSuffix [] (lastComponent p) = lastComponent p"
      by (simp add: stripSuffix_def endsWith_def)
    ultimately show ?thesis
      using False ext True by (simp only: if_False)
  next
    case ne: False
    from extname_component [OF ne] obtain stem where
      s: "stem \<noteq> []" and comp: "lastComponent p = stem @ extname p"
      by blast
    from comp s ne have "basename p (extname p) = stem"
      by (rule basename_component)
    moreover have "stripSuffix (extname p) (lastComponent p) = stem"
      unfolding comp by (rule stripSuffix_append)
    ultimately show ?thesis
      using False ext by (simp only: if_False)
  qed
qed

lemma outputPath_stated:
  "\<not> endsWith p ''/.coffee.md'' \<Longrightarrow> outputPath p = statedOutputPath p"
  unfolding outputPath_def statedOutputPath_def Let_def
  using basename_stripSuffix [of p] by simp

text \<open>
  Claim C4 says that for every path the output path is the directory joined with the base
  name with the detected extension stripped, plus \<^verbatim>\<open>.js\<close>. \<^verbatim>\<open>basename\<close> of
  Node.js does not strip a suffix that is the whole of the last component: for
  \<^verbatim>\<open>x/.coffee.md\<close>, which ends in \<^verbatim>\<open>.coffee.md\<close>, the code gives
  \<^verbatim>\<open>x/.coffee.md.js\<close>, where the stated path is \<^verbatim>\<open>x.js\<close>. For the path
  \<^verbatim>\<open>.coffee.md\<close> itself the code gives \<^verbatim>\<open>..js\<close>, which is not the path with the
  compound suffix stripped followed by \<^verbatim>\<open>.js\<close> either.
\<close>

theorem whole_name_not_stripped:
  "endsWith ''x/.coffee.md'' ''.coffee.md'' \<and>
   outputPath ''x/.coffee.md'' = ''x/.coffee.md.js'' \<and>
   statedOutputPath ''x/.coffee.md'' = ''x.js'' \<and>
   outputPath ''.coffee.md'' = ''..js'' \<and>
   stripSuffix ''.coffee.md'' ''.coffee.md'' @ ''.js'' = ''.js''"
  by code_simp

text \<open>
  Claim C4, amended. For every path \<open>p\<close> that does not end in \<^verbatim>\<open>/.coffee.md\<close>, the
  output path computed by the code is the stated one: the directory of \<open>p\<close> joined with
  the last component of \<open>p\<close> with the detected extension stripped, plus \<^verbatim>\<open>.js\<close>,
  where the detected extension is \<^verbatim>\<open>.coffee.md\<close> when \<open>p\<close> ends with it and
  \<^verbatim>\<open>extname(p)\<close> otherwise. \<^verbatim>\<open>a/b/Foo.coffee.md\<close> and \<^verbatim>\<open>a/b/Foo.coffee\<close> both
  give \<^verbatim>\<open>a/b/Foo.js\<close>. For a path of plain names whose last name is a plain stem
  followed by \<^verbatim>\<open>.coffee.md\<close>, or by a dot and an extension without dots when the
  path does not end in \<^verbatim>\<open>.coffee.md\<close>, the output path is the same path with the
  stem followed by \<^verbatim>\<open>.js\<close>.
\<close>

theorem output_path_of_source:
  "(\<not> endsWith p ''/.coffee.md'' \<longrightarrow> outputPath p = statedOutputPath p) \<and>
   outputPath ''a/b/Foo.coffee.md'' = ''a/b/Foo.js'' \<and>
   outputPath ''a/b/Foo.coffee'' = ''a/b/Foo.js'' \<and>
   ((\<forall>x \<in> set dirs. plainName x) \<and> plainName stem \<longrightarrow>
      outputPath (plainPath absolute dirs (stem @ ''.coffee.md'')) =
        plainPath absolute dirs (stem @ ''.js'')) \<and>
   ((\<forall>x \<in> set dirs. plainName x) \<and> plainName stem \<and>
    CHR ''.'' \<notin> set e \<and> CHR ''/'' \<notin> set e \<and>
    \<not> endsWith (plainPath absolute dirs (stem @ CHR ''.'' # e)) ''.coffee.md'' \<longrightarrow>
      outputPath (plainPath absolute dirs (stem @ CHR ''.'' # e)) =
        plainPath absolute dirs (stem @ ''.js''))"
proof -
  have d: "outputPath p = statedOutputPath p" if "\<not> endsWith p ''/.coffee.md''"
    unfolding outputPath_def statedOutputPath_def Let_def
    using basename_stripSuffix [OF that] by simp
  have e1: "outputPath ''a/b/Foo.coffee.md'' = ''a/b/Foo.js''"
    by code_simp
  have e2: "outputPath ''a/b/Foo.coffee'' = ''a/b/Foo.js''"
    by code_simp
  have lit: "outputPath (plainPath absolute dirs (stem @ ''.coffee.md'')) =
        plainPath absolute dirs (stem @ ''.js'')"
    if "\<forall>x \<in> set dirs. plainName x" "plainName stem"
  proof -
    from that(1) have n: "\<forall>x \<in> set dirs. x \<noteq> [] \<and> CHR ''/'' \<notin> set x"
      by (auto simp add: plainName_def)
    from that(1) have f: "foldl (normalizeStep (\<not> absolute)) [] dirs = dirs"
      by (simp add: foldl_normalizeStep_plain)
    from n f that(2) extension_literate [of absolute dirs stem] show ?thesis
      by (intro outputPath_plainPath) simp_all
  qed
  have one: "outputPath (plainPath absolute dirs (stem @ CHR ''.'' # e)) =
        plainPath absolute dirs (stem @ ''.js'')"
    if "\<forall>x \<in> set dirs. plainName x" "plainName stem" "CHR ''.'' \<notin> set e" "CHR ''/'' \<notin> set e"
       "\<not> endsWith (plainPath absolute dirs (stem @ CHR ''.'' # e)) ''.coffee.md''"
  proof -
    from that(1) have n: "\<forall>x \<in> set dirs. x \<noteq> [] \<and> CHR ''/'' \<notin> set x"
      by (auto simp add: plainName_def)
    from that(1) have f: "foldl (normalizeStep (\<not> absolute)) [] dirs = dirs"
      by (simp add: foldl_normalizeStep_plain)
    have "extension (plainPath absolute dirs (stem @ CHR ''.'' # e)) = CHR ''.'' # e"
      using that(2,3,4,5) by (rule extension_plainPath)
    with n f that(2,4) show ?thesis
      by (intro outputPath_plainPath) simp_all
  qed
  from d e1 e2 lit one show ?thesis by blast
qed

theorem output_path_of_source_witness:
  "outputPath ''x/y/Bar.coffee.md'' = statedOutputPath ''x/y/Bar.coffee.md'' \<and>
   outputPath ''x/y/Bar.coffee.md'' = ''x/y/Bar.js'' \<and>
   outputPath ''/x/y/Bar.litcoffee'' = ''/x/y/Bar.js''"
proof -
  have o: "\<not> endsWith ''x/y/Bar.coffee.md'' ''/.coffee.md''"
    by (simp add: endsWith_def)
  have p: "\<forall>x \<in> set [''x'', ''y'']. plainName x" "plainName ''Bar''"
    by (simp_all add: plainName_def)
  have q: "CHR ''.'' \<notin> set ''litcoffee''" "CHR ''/'' \<notin> set ''litcoffee''"
    by simp_all
  have r: "\<not> endsWith (plainPath True [''x'', ''y''] (''Bar'' @ CHR ''.'' # ''litcoffee'')) ''.coffee.md''"
    by (simp add: endsWith_def plainPath_def)
  from output_path_of_source [of "''x/y/Bar.coffee.md''" "[''x'', ''y'']" "''Bar''" False "[]"] o p
  have s: "outputPath ''x/y/Bar.coffee.md'' = statedOutputPath ''x/y/Bar.coffee.md''"
    and a: "outputPath (plainPath False [''x'', ''y''] (''Bar'' @ ''.coffee.md'')) =
           plainPath False [''x'', ''y''] (''Bar'' @ ''.js'')"
    by blast+
  from output_path_of_source [of "[]" "[''x'', ''y'']" "''Bar''" True "''litcoffee''"] p q r
  have b: "outputPath (plainPath True [''x'', ''y''] (''Bar'' @ CHR ''.'' # ''litcoffee'')) =
           plainPath True [''x'', ''y''] (''Bar'' @ ''.js'')"
    by blast
  from s a b show ?thesis by (simp add: plainPath_def)
qed

section \<open>One call of \<^verbatim>\<open>processNext\<close>, case by case\<close>

lemma processNext_empty:
  "pending s = [] \<Longrightarrow>
   processNext h options callback s =
     (if callback then s\<lparr>trace := trace s @ [Callback (errors s)], status := Finished\<rparr>
      else s\<lparr>status := Finished\<rparr>)"
  by (simp add: processNext_def)

lemma processNext_stat_error:
  "pending s = p # rest \<Longrightarrow> fs_stat h (world s) p = Inl e \<Longrightarrow>
   processNext h options callback s =
     s\<lparr>pending := rest, trace := trace s @ [Stat p],
       errors := errors s @ [e], status := Stalled\<rparr>"
  by (simp add: processNext_def processPath_def)

lemma processNext_readdir_error:
  "pending s = p # rest \<Longrightarrow> fs_stat h (world s) p = Inr True \<Longrightarrow>
   fs_readdir h (world s) p = Inl e \<Longrightarrow>
   processNext h options callback s =
     s\<lparr>pending := rest, trace := trace s @ [Stat p, Readdir p],
       errors := errors s @ [e]\<rparr>"
  by (simp add: processNext_def processPath_def processDirectory_def)

lemma processNext_directory:
  "pending s = p # rest \<Longrightarrow> fs_stat h (world s) p = Inr True \<Longrightarrow>
   fs_readdir h (world s) p = Inr children \<Longrightarrow>
   processNext h options callback s =
     s\<lparr>pending := map (join p) (filter (eligible options) children) @ rest,
       trace := trace s @ [Stat p, Readdir p]\<rparr>"
  by (simp add: processNext_def processPath_def processDirectory_def)

lemma pending_processFile: "pending (processFile h options p s) = pending s"
  by (simp add: processFile_def Let_def split: sum.splits prod.splits)

lemma processNext_file_pending:
  "pending s = p # rest \<Longrightarrow> fs_stat h (world s) p = Inr False \<Longrightarrow>
   pending (processNext h options callback s) = rest"
  by (simp add: processNext_def processPath_def pending_processFile)

lemma pending_processNext:
  "pending s = p # rest \<Longrightarrow>
   pending (processNext h options callback s) =
     map (join p) (requeued h options (world s) p) @ rest"
proof (cases "fs_stat h (world s) p")
  case (Inl e)
  assume "pending s = p # rest"
  with Inl show ?thesis
    by (simp add: processNext_stat_error requeued_def)
next
  case (Inr isDirectory)
  assume pend: "pending s = p # rest"
  show ?thesis
  proof (cases isDirectory)
    case False
    with Inr pend show ?thesis
      by (simp add: processNext_file_pending requeued_def)
  next
    case True
    with Inr pend show ?thesis
      by (cases "fs_readdir h (world s) p")
         (simp_all add: processNext_readdir_error processNext_directory requeued_def)
  qed
qed

lemma steps_stopped: "status s \<noteq> Running \<Longrightarrow> steps h options callback n s = s"
  by (cases n) simp_all

text \<open>The last of \<open>n + 1\<close> calls is a call on the state after \<open>n\<close> calls.\<close>

lemma steps_Suc_end:
  "steps h options callback (Suc n) s =
     (if status (steps h options callback n s) = Running
      then processNext h options callback (steps h options callback n s)
      else steps h options callback n s)"
proof (induction n arbitrary: s)
  case 0
  show ?case by simp
next
  case (Suc n)
  show ?case
  proof (cases "status s = Running")
    case True
    then have "steps h options callback (Suc (Suc n)) s =
               steps h options callback (Suc n) (processNext h options callback s)"
      by simp
    also have "\<dots> =
      (if status (steps h options callback n (processNext h options callback s)) = Running
       then processNext h options callback
              (steps h options callback n (processNext h options callback s))
       else steps h options callback n (processNext h options callback s))"
      by (rule Suc.IH)
    finally show ?thesis using True by simp
  next
    case False
    then show ?thesis by simp
  qed
qed

section \<open>A failed \<^verbatim>\<open>stat\<close>\<close>

text \<open>
  Claim C1 says that a run goes on after a path whose \<^verbatim>\<open>stat\<close> fails. The callback
  of \<^verbatim>\<open>stat\<close> in \<^verbatim>\<open>processPath\<close> pushes the error and returns: unlike the
  callbacks of \<^verbatim>\<open>readdir\<close>, \<^verbatim>\<open>readFile\<close> and \<^verbatim>\<open>writeFile\<close> it does not
  call \<^verbatim>\<open>processNext\<close>. On the work list \<^verbatim>\<open>a.coffee\<close>,
  \<^verbatim>\<open>missing.coffee\<close>, \<^verbatim>\<open>c.coffee\<close> the run converts the first file, records
  the error of the second and stops there: \<^verbatim>\<open>c.coffee\<close> stays on the work list,
  is never classified, and the completion callback is never called.
\<close>

theorem stat_failure_stalls_run:
  "map_option (\<lambda>s. (pending s, errors s, status s, trace s))
     (runWithPaths exampleHost [''a.coffee'', ''missing.coffee'', ''c.coffee'']
        convertMode True exampleTree 10) =
   Some ([''c.coffee''], [ENOENT ''missing.coffee''], Stalled,
         [Stat ''a.coffee'', ConsoleLog ''a.coffee'' ''a.js'', ReadFile ''a.coffee'',
          EngineCall False ''a = 1'' (noOptions\<lparr>filename := Some ''a.coffee''\<rparr>),
          WriteFile ''a.js'' ''// a = 1'',
          Stat ''missing.coffee''])"
  by code_simp

section \<open>Which paths a run classifies\<close>











section \<open>Errors of the engine\<close>

text \<open>
  Claim C3. When the engine throws on the contents of the file at the head of the work
  list, the call of \<^verbatim>\<open>processNext\<close> ends the process: with exit status 1 after
  printing the diagnostic when \<^verbatim>\<open>PatchError.detect\<close> accepts the error, and with
  the error itself uncaught otherwise. Nothing is written, the error is not added to
  \<^verbatim>\<open>errors\<close>, and no further step changes the state, so no later item of the work
  list is classified.
\<close>

theorem patch_error_is_fatal:
  assumes "pending s = p # rest"
      and "fs_stat h (world s) p = Inr False"
      and "fs_readFile h (world s) p = Inr data"
      and "(if modernizeJS options then engine_modernizeJS h else engine_convert h)
             data (withFilename p (baseOptions options)) = Inl err"
  shows "processNext h options callback s =
           s\<lparr>pending := rest,
             trace := trace s @
               [Stat p, ConsoleLog p (outputPath p), ReadFile p,
                EngineCall (modernizeJS options) data (withFilename p (baseOptions options))] @
               (if PatchError_detect h err
                then [ConsoleError p (PatchError_prettyPrint h err)] else []),
             status := (if PatchError_detect h err then Exited 1 else Uncaught err)\<rparr> \<and>
         exitStatus (status (processNext h options callback s)) = Some 1 \<and>
         errors (processNext h options callback s) = errors s \<and>
         (\<forall>n. steps h options callback n (processNext h options callback s) =
                processNext h options callback s)"
proof -
  let ?s' = "processNext h options callback s"
  have eq: "?s' =
           s\<lparr>pending := rest,
             trace := trace s @
               [Stat p, ConsoleLog p (outputPath p), ReadFile p,
                EngineCall (modernizeJS options) data (withFilename p (baseOptions options))] @
               (if PatchError_detect h err
                then [ConsoleError p (PatchError_prettyPrint h err)] else []),
             status := (if PatchError_detect h err then Exited 1 else Uncaught err)\<rparr>"
    using assms
    by (simp add: processNext_def processPath_def processFile_def runWithCode_def Let_def
             split: if_splits)
  have st: "status ?s' \<noteq> Running" by (simp add: eq)
  have ex: "exitStatus (status ?s') = Some 1" by (simp add: eq)
  have er: "errors ?s' = errors s" by (simp add: eq)
  from eq ex er steps_stopped [OF st] show ?thesis by blast
qed

theorem patch_error_is_fatal_witness:
  "status (processNext exampleHost convertMode True
             (initial [''bad.coffee'', ''z.coffee''] exampleTree)) = Exited 1 \<and>
   pending (processNext exampleHost convertMode True
             (initial [''bad.coffee'', ''z.coffee''] exampleTree)) = [''z.coffee''] \<and>
   steps exampleHost convertMode True 3
     (processNext exampleHost convertMode True
        (initial [''bad.coffee'', ''z.coffee''] exampleTree)) =
   processNext exampleHost convertMode True
     (initial [''bad.coffee'', ''z.coffee''] exampleTree)"
proof -
  let ?s = "initial [''bad.coffee'', ''z.coffee''] exampleTree :: (tree, error) state"
  have h1: "pending ?s = ''bad.coffee'' # [''z.coffee'']"
    by (simp add: initial_def)
  have h2: "fs_stat exampleHost (world ?s) ''bad.coffee'' = Inr False"
    by (simp add: initial_def exampleHost_def exampleTree_def)
  have h3: "fs_readFile exampleHost (world ?s) ''bad.coffee'' = Inr ''syntax error''"
    by (simp add: initial_def exampleHost_def exampleTree_def)
  have h4: "(if modernizeJS convertMode then engine_modernizeJS exampleHost
             else engine_convert exampleHost)
              ''syntax error'' (withFilename ''bad.coffee'' (baseOptions convertMode)) =
            Inl (SyntaxProblem ''unexpected token'')"
    by (simp add: convertMode_def exampleHost_def exampleEngine_def)
  have h5: "PatchError_detect exampleHost (SyntaxProblem ''unexpected token'')"
    by (simp add: exampleHost_def)
  let ?t = "processNext exampleHost convertMode True ?s"
  note fatal = patch_error_is_fatal [OF h1 h2 h3 h4, of True]
  from fatal have stop: "steps exampleHost convertMode True 3 ?t = ?t" by blast
  from fatal h5 have st: "status ?t = Exited 1" by simp
  from fatal have pe: "pending ?t = [''z.coffee'']" by simp
  from stop st pe show ?thesis by blast
qed

section \<open>The order in which a directory and its children are processed\<close>














section \<open>The jobs a directory gives\<close>

lemma count_list_map_inj:
  "(\<forall>x \<in> set xs. f x = f c \<longrightarrow> x = c) \<Longrightarrow> count_list (map f xs) (f c) = count_list xs c"
  by (induction xs) auto

lemma count_list_filter_distinct:
  "distinct xs \<Longrightarrow> c \<in> set xs \<Longrightarrow> P c \<Longrightarrow> count_list (filter P xs) c = 1"
  by (induction xs) auto

text \<open>
  Claim C6. When the head \<open>d\<close> of the work list is a directory, the call of
  \<^verbatim>\<open>processNext\<close> puts the paths \<^verbatim>\<open>join(d, c)\<close> of the children \<open>c\<close> that
  pass the filter in front of the rest of the work list. The listing of a directory
  consists of distinct plain names; then the path of each child that passes the filter
  occurs exactly once among these jobs, and the path of a child that fails it does not
  occur. The filter is \<^verbatim>\<open>.js\<close> at the end of the name in modernize mode and
  \<^verbatim>\<open>.coffee\<close>, \<^verbatim>\<open>.litcoffee\<close> or \<^verbatim>\<open>.coffee.md\<close> at the end otherwise.
\<close>

theorem eligible_children_queued_once:
  assumes "pending s = d # rest"
      and "fs_stat h (world s) d = Inr True"
      and "fs_readdir h (world s) d = Inr children"
      and "distinct children"
      and "\<forall>c \<in> set children. plainName c"
  shows "pending (processNext h options callback s) =
           map (join d) (requeued h options (world s) d) @ rest \<and>
         (\<forall>c \<in> set children.
            eligible options c \<longrightarrow>
            count_list (map (join d) (requeued h options (world s) d)) (join d c) = 1) \<and>
         (\<forall>c \<in> set children.
            \<not> eligible options c \<longrightarrow>
            join d c \<notin> set (map (join d) (requeued h options (world s) d))) \<and>
         (\<forall>c. eligible options c \<longleftrightarrow>
            (if modernizeJS options then endsWith c ''.js''
             else endsWith c ''.coffee'' \<or> endsWith c ''.litcoffee'' \<or>
                  endsWith c ''.coffee.md''))"
proof -
  have rq: "requeued h options (world s) d = filter (eligible options) children"
    using assms(2,3) by (simp add: requeued_def)
  have pe: "pending (processNext h options callback s) =
              map (join d) (requeued h options (world s) d) @ rest"
    using assms(1) by (rule pending_processNext)
  have inj: "x = c" if "x \<in> set children" "c \<in> set children" "join d x = join d c" for x c
    using that assms(5) join_plain_inj [of x c d] by blast
  have once: "count_list (map (join d) (filter (eligible options) children)) (join d c) = 1"
    if c: "c \<in> set children" and e: "eligible options c" for c
  proof -
    have "\<forall>x \<in> set (filter (eligible options) children). join d x = join d c \<longrightarrow> x = c"
      using inj c by auto
    then have "count_list (map (join d) (filter (eligible options) children)) (join d c) =
               count_list (filter (eligible options) children) c"
      by (rule count_list_map_inj)
    also have "\<dots> = 1"
      using assms(4) c e by (rule count_list_filter_distinct)
    finally show ?thesis .
  qed
  have never: "join d c \<notin> set (map (join d) (filter (eligible options) children))"
    if c: "c \<in> set children" and e: "\<not> eligible options c" for c
  proof
    assume "join d c \<in> set (map (join d) (filter (eligible options) children))"
    then obtain x where x: "x \<in> set children" "eligible options x" "join d x = join d c"
      by auto
    with inj [OF x(1) c x(3)] e show False by simp
  qed
  have el: "\<forall>c. eligible options c \<longleftrightarrow>
            (if modernizeJS options then endsWith c ''.js''
             else endsWith c ''.coffee'' \<or> endsWith c ''.litcoffee'' \<or>
                  endsWith c ''.coffee.md'')"
    by (simp add: eligible_def)
  from pe once never el show ?thesis unfolding rq by blast
qed

lemma example_jobs:
  "map (join ''D'') (requeued exampleHost convertMode exampleTree ''D'') =
     [''D/x.coffee'', ''D/y.coffee'']"
  by code_simp

lemma example_job_names:
  "join ''D'' ''x.coffee'' = ''D/x.coffee'' \<and> join ''D'' ''notes.txt'' = ''D/notes.txt'' \<and>
   eligible convertMode ''x.coffee'' \<and> \<not> eligible convertMode ''notes.txt''"
  by code_simp

theorem eligible_children_queued_once_witness:
  "pending (processNext exampleHost convertMode True (initial [''D'', ''z.coffee''] exampleTree)) =
     [''D/x.coffee'', ''D/y.coffee'', ''z.coffee''] \<and>
   count_list [''D/x.coffee'', ''D/y.coffee''] ''D/x.coffee'' = 1 \<and>
   ''D/notes.txt'' \<notin> set [''D/x.coffee'', ''D/y.coffee'']"
proof -
  let ?s = "initial [''D'', ''z.coffee''] exampleTree :: (tree, error) state"
  have h1: "pending ?s = ''D'' # [''z.coffee'']"
    by (simp add: initial_def)
  have h2: "fs_stat exampleHost (world ?s) ''D'' = Inr True"
    by (simp add: initial_def exampleHost_def exampleTree_def)
  have h3: "fs_readdir exampleHost (world ?s) ''D'' = Inr [''notes.txt'', ''x.coffee'', ''y.coffee'']"
    by (simp add: initial_def exampleHost_def exampleTree_def)
  have h4: "distinct [''notes.txt'', ''x.coffee'', ''y.coffee'']"
    by simp
  have h5: "\<forall>c \<in> set [''notes.txt'', ''x.coffee'', ''y.coffee'']. plainName c"
    by (simp add: plainName_def)
  have w: "world ?s = exampleTree" by (simp add: initial_def)
  note once = eligible_children_queued_once [OF h1 h2 h3 h4 h5, of convertMode True,
                unfolded w example_jobs]
  from once have a: "pending (processNext exampleHost convertMode True ?s) =
     [''D/x.coffee'', ''D/y.coffee''] @ [''z.coffee'']" by (rule conjunct1)
  from once example_job_names
  have b: "count_list [''D/x.coffee'', ''D/y.coffee''] (join ''D'' ''x.coffee'') = 1"
    by simp
  from once example_job_names
  have c: "join ''D'' ''notes.txt'' \<notin> set [''D/x.coffee'', ''D/y.coffee'']"
    by simp
  from a b c example_job_names show ?thesis by simp
qed

section \<open>The size of the work list\<close>

text \<open>
  Claim C7. The work list is a finite list at every moment. A call of
  \<^verbatim>\<open>processNext\<close> on a work list with head \<open>p\<close> takes \<open>p\<close> off and puts
  back as many items as \<open>p\<close> has children that pass the filter, when \<open>p\<close> is a
  directory whose listing succeeds; in every other case (a failed \<^verbatim>\<open>stat\<close>, a failed
  listing, a file, whatever happens to it) it puts nothing back.
\<close>

theorem work_list_length:
  assumes "pending s = p # rest"
  shows "finite (set (pending (processNext h options callback s))) \<and>
         length (pending (processNext h options callback s)) =
           length (pending s) - 1 + length (requeued h options (world s) p) \<and>
         (\<forall>children. fs_stat h (world s) p = Inr True \<and>
                     fs_readdir h (world s) p = Inr children \<longrightarrow>
            length (requeued h options (world s) p) =
              length (filter (eligible options) children)) \<and>
         ((\<exists>e. fs_stat h (world s) p = Inl e) \<or> fs_stat h (world s) p = Inr False \<or>
          (\<exists>e. fs_readdir h (world s) p = Inl e) \<longrightarrow>
            length (pending (processNext h options callback s)) = length (pending s) - 1)"
proof -
  have len: "length (pending (processNext h options callback s)) =
             length (pending s) - 1 + length (requeued h options (world s) p)"
    using assms by (simp add: pending_processNext)
  have dir: "\<forall>children. fs_stat h (world s) p = Inr True \<and>
                     fs_readdir h (world s) p = Inr children \<longrightarrow>
            length (requeued h options (world s) p) =
              length (filter (eligible options) children)"
    by (simp add: requeued_def)
  have none: "(\<exists>e. fs_stat h (world s) p = Inl e) \<or> fs_stat h (world s) p = Inr False \<or>
          (\<exists>e. fs_readdir h (world s) p = Inl e) \<Longrightarrow> requeued h options (world s) p = []"
    by (auto simp add: requeued_def split: sum.splits bool.splits)
  from len dir none show ?thesis by simp
qed

lemma example_eligible_count:
  "length (filter (eligible convertMode) [''notes.txt'', ''x.coffee'', ''y.coffee'']) = 2"
  by code_simp

theorem work_list_length_witness:
  "length (pending (processNext exampleHost convertMode True
                      (initial [''D'', ''z.coffee''] exampleTree))) = 3 \<and>
   length (requeued exampleHost convertMode exampleTree ''D'') = 2"
proof -
  let ?s = "initial [''D'', ''z.coffee''] exampleTree :: (tree, error) state"
  have h1: "pending ?s = ''D'' # [''z.coffee'']"
    by (simp add: initial_def)
  have h2: "fs_stat exampleHost (world ?s) ''D'' = Inr True"
    by (simp add: initial_def exampleHost_def exampleTree_def)
  have h3: "fs_readdir exampleHost (world ?s) ''D'' = Inr [''notes.txt'', ''x.coffee'', ''y.coffee'']"
    by (simp add: initial_def exampleHost_def exampleTree_def)
  have w: "world ?s = exampleTree" by (simp add: initial_def)
  note len = work_list_length [OF h1, of exampleHost convertMode True]
  from len h2 h3
  have r: "length (requeued exampleHost convertMode (world ?s) ''D'') =
           length (filter (eligible convertMode) [''notes.txt'', ''x.coffee'', ''y.coffee''])"
    by blast
  from len
  have "length (pending (processNext exampleHost convertMode True ?s)) =
        length (pending ?s) - 1 + length (requeued exampleHost convertMode (world ?s) ''D'')"
    by blast
  with r h1 show ?thesis
    unfolding w example_eligible_count by simp
qed

section \<open>Stream mode\<close>

lemma foldl_chunks:
  "foldl (\<lambda>data chunk. data @ f chunk) acc chunks = acc @ concat (map f chunks)"
  by (induction chunks arbitrary: acc) simp_all

text \<open>
  What holds of stream mode on every host: with no paths among the arguments,
  \<^verbatim>\<open>run\<close> is \<^verbatim>\<open>runWithStdio\<close>; it makes no call to \<^verbatim>\<open>fs\<close>, calls the
  engine exactly once and, when the engine returns, writes its output in one write. The
  text the engine gets is the concatenation of the strings of the chunks.
\<close>

lemma runWithStdio_events:
  assumes "parseArguments args = Inr options" and "paths options = []"
  shows "run h args chunks w fuel = Some (runWithStdio h options chunks w) \<and>
         filter fsEvent (trace (runWithStdio h options chunks w)) = [] \<and>
         world (runWithStdio h options chunks w) = w \<and>
         filter engineEvent (trace (runWithStdio h options chunks w)) =
           [EngineCall (modernizeJS options) (concat (map (buffer_toString h) chunks))
              (withFilename ''stdin'' (baseOptions options))] \<and>
         (\<forall>out. (if modernizeJS options then engine_modernizeJS h else engine_convert h)
                  (concat (map (buffer_toString h) chunks))
                  (withFilename ''stdin'' (baseOptions options)) = Inr out \<longrightarrow>
            trace (runWithStdio h options chunks w) =
              [EngineCall (modernizeJS options) (concat (map (buffer_toString h) chunks))
                 (withFilename ''stdin'' (baseOptions options)),
               StdoutWrite out] \<and>
            status (runWithStdio h options chunks w) = Finished)"
proof -
  have r: "run h args chunks w fuel = Some (runWithStdio h options chunks w)"
    using assms by (simp add: run_def)
  have rest: "filter fsEvent (trace (runWithStdio h options chunks w)) = [] \<and>
         world (runWithStdio h options chunks w) = w \<and>
         filter engineEvent (trace (runWithStdio h options chunks w)) =
           [EngineCall (modernizeJS options) (concat (map (buffer_toString h) chunks))
              (withFilename ''stdin'' (baseOptions options))] \<and>
         (\<forall>out. (if modernizeJS options then engine_modernizeJS h else engine_convert h)
                  (concat (map (buffer_toString h) chunks))
                  (withFilename ''stdin'' (baseOptions options)) = Inr out \<longrightarrow>
            trace (runWithStdio h options chunks w) =
              [EngineCall (modernizeJS options) (concat (map (buffer_toString h) chunks))
                 (withFilename ''stdin'' (baseOptions options)),
               StdoutWrite out] \<and>
            status (runWithStdio h options chunks w) = Finished)"
    by (simp add: runWithStdio_def runWithCode_def Let_def foldl_chunks
             split: sum.splits)
  from r rest show ?thesis by simp
qed

text \<open>
  Claim C8 says that the engine is called on the whole text of the input. The callback of
  \<^verbatim>\<open>data\<close> appends each chunk with \<^verbatim>\<open>data += chunk\<close>, and no encoding is set on
  the stream (\<^verbatim>\<open>readFile\<close> in \<^verbatim>\<open>processFile\<close> is given \<^verbatim>\<open>utf8\<close>), so each
  chunk is decoded by itself. The three bytes \<^verbatim>\<open>61 C3 A9\<close> are the text \<^verbatim>\<open>a\<close>
  followed by U+00E9; when they arrive as the chunks \<^verbatim>\<open>61 C3\<close> and \<^verbatim>\<open>A9\<close>, the
  engine is called on \<^verbatim>\<open>a\<close> followed by two replacement characters, and that is what
  is written to the output.
\<close>

theorem stdin_chunks_decoded_one_by_one:
  "buffer_toString exampleHost (concat [[97, 195], [169]]) = [CHR ''a'', CHR 0xE9] \<and>
   trace (runWithStdio exampleHost convertMode [[97, 195], [169]] exampleTree) =
     [EngineCall False [CHR ''a'', replacement, replacement]
        (noOptions\<lparr>filename := Some ''stdin''\<rparr>),
      StdoutWrite (''// '' @ [CHR ''a'', replacement, replacement])]"
  by code_simp

section \<open>Paths that end in \<^verbatim>\<open>.js\<close>\<close>

lemma processNext_file_written:
  assumes "pending s = p # rest"
      and "fs_stat h (world s) p = Inr False"
      and "fs_readFile h (world s) p = Inr data"
      and "(if modernizeJS options then engine_modernizeJS h else engine_convert h)
             data (withFilename p (baseOptions options)) = Inr code"
  shows "trace (processNext h options callback s) =
           trace s @
           [Stat p, ConsoleLog p (outputPath p), ReadFile p,
            EngineCall (modernizeJS options) data (withFilename p (baseOptions options)),
            WriteFile (outputPath p) code]"
  using assms
  by (simp add: processNext_def processPath_def processFile_def runWithCode_def Let_def
           split: if_splits prod.splits)

text \<open>
  Claim C9 says that every path that ends in \<^verbatim>\<open>.js\<close> is its own output path. It
  is not: \<^verbatim>\<open>join\<close> normalizes its result, so \<^verbatim>\<open>./a.js\<close> gives \<^verbatim>\<open>a.js\<close>;
  a name that is only \<^verbatim>\<open>.js\<close> has no extension for \<^verbatim>\<open>extname\<close> and gives
  \<^verbatim>\<open>.js.js\<close>; and the stem \<^verbatim>\<open>.\<close> of \<^verbatim>\<open>a/..js\<close> is dropped by
  \<^verbatim>\<open>join\<close>, which gives \<^verbatim>\<open>a.js\<close>.
\<close>

theorem js_path_not_always_fixed:
  "endsWith ''./a.js'' ''.js'' \<and> outputPath ''./a.js'' = ''a.js'' \<and>
   endsWith ''.js'' ''.js'' \<and> outputPath ''.js'' = ''.js.js'' \<and>
   endsWith ''a/..js'' ''.js'' \<and> outputPath ''a/..js'' = ''a.js''"
  by code_simp

text \<open>
  Claim C9 as amended. A path that is normalized (plain names separated by single slashes,
  after a leading slash or after leading \<^verbatim>\<open>..\<close> names in a relative path) and whose last
  name is a plain stem followed by \<^verbatim>\<open>.js\<close> is its own output path. So is the path
  \<^verbatim>\<open>join(d, c)\<close> that expanding a directory \<open>d\<close> gives for a child \<open>c\<close> that
  is a plain stem followed by \<^verbatim>\<open>.js\<close>. In modernize mode a file whose path is its
  own output path is written back in place: the step that processes it reads \<open>p\<close> and
  writes the result of the engine to \<open>p\<close>.
\<close>

theorem js_path_fixed:
  assumes "\<forall>x \<in> set dirs. plainName x" and "plainName stem" and "absolute \<longrightarrow> ups = 0"
  shows "endsWith (plainPath absolute (replicate ups ''..'' @ dirs) (stem @ ''.js'')) ''.js'' \<and>
         outputPath (plainPath absolute (replicate ups ''..'' @ dirs) (stem @ ''.js'')) =
           plainPath absolute (replicate ups ''..'' @ dirs) (stem @ ''.js'') \<and>
         (d \<noteq> [] \<longrightarrow> outputPath (join d (stem @ ''.js'')) = join d (stem @ ''.js'')) \<and>
         (\<forall>p rest data code.
            pending s = p # rest \<and> fs_stat h (world s) p = Inr False \<and>
            fs_readFile h (world s) p = Inr data \<and> modernizeJS options \<and>
            engine_modernizeJS h data (withFilename p (baseOptions options)) = Inr code \<and>
            outputPath p = p \<longrightarrow>
            trace (processNext h options callback s) =
              trace s @
              [Stat p, ConsoleLog p p, ReadFile p,
               EngineCall True data (withFilename p (baseOptions options)),
               WriteFile p code])"
proof -
  let ?p = "plainPath absolute (replicate ups ''..'' @ dirs) (stem @ ''.js'')"
  have a: "endsWith ?p ''.js''"
    using endsWith_append [of "plainPath absolute (replicate ups ''..'' @ dirs) stem" "''.js''"]
    by (simp add: plainPath_append)
  have b: "outputPath ?p = ?p"
    using plain_dirs_normal [OF assms(1,3)] assms(2) by (rule outputPath_js)
  have c: "outputPath (join d (stem @ ''.js'')) = join d (stem @ ''.js'')" if "d \<noteq> []"
  proof -
    from join_child_plainPath [OF that]
    obtain ds where n: "\<forall>x \<in> set ds. x \<noteq> [] \<and> CHR ''/'' \<notin> set x"
      and f: "foldl (normalizeStep (hd d \<noteq> CHR ''/'')) [] ds = ds"
      and j: "\<forall>c. plainName c \<longrightarrow> join d c = plainPath (hd d = CHR ''/'') ds c"
      by blast
    from j plainName_js [OF assms(2)]
    have "join d (stem @ ''.js'') = plainPath (hd d = CHR ''/'') ds (stem @ ''.js'')" by blast
    moreover from f have "foldl (normalizeStep (\<not> hd d = CHR ''/'')) [] ds = ds" by simp
    from outputPath_js [OF n this assms(2)]
    have "outputPath (plainPath (hd d = CHR ''/'') ds (stem @ ''.js'')) =
          plainPath (hd d = CHR ''/'') ds (stem @ ''.js'')" .
    ultimately show ?thesis by simp
  qed
  have w: "trace (processNext h options callback s) =
              trace s @
              [Stat p, ConsoleLog p p, ReadFile p,
               EngineCall True data (withFilename p (baseOptions options)),
               WriteFile p code]"
    if "pending s = p # rest" "fs_stat h (world s) p = Inr False"
       "fs_readFile h (world s) p = Inr data" "modernizeJS options"
       "engine_modernizeJS h data (withFilename p (baseOptions options)) = Inr code"
       "outputPath p = p" for p rest data code
    using processNext_file_written [of s p rest h data options code callback] that by simp
  from a b c w show ?thesis by blast
qed

lemma example_js_paths:
  "plainPath False (replicate 1 ''..'' @ [''src'']) (''foo'' @ ''.js'') = ''../src/foo.js'' \<and>
   join ''lib'' (''util'' @ ''.js'') = ''lib/util.js''"
  by code_simp

theorem js_path_fixed_witness:
  "endsWith ''../src/foo.js'' ''.js'' \<and> outputPath ''../src/foo.js'' = ''../src/foo.js'' \<and>
   outputPath ''lib/util.js'' = ''lib/util.js'' \<and>
   trace (processNext exampleHost modernizeMode True (initial [''lib/util.js''] exampleTree)) =
     [Stat ''lib/util.js'', ConsoleLog ''lib/util.js'' ''lib/util.js'', ReadFile ''lib/util.js'',
      EngineCall True ''var u'' (withFilename ''lib/util.js'' (baseOptions modernizeMode)),
      WriteFile ''lib/util.js'' ''// var u'']"
proof -
  let ?s = "initial [''lib/util.js''] exampleTree :: (tree, error) state"
  have h1: "\<forall>x \<in> set [''src'']. plainName x" and h2: "plainName ''foo''" and h2': "plainName ''util''"
    by (simp_all add: plainName_def)
  have h3: "False \<longrightarrow> (1::nat) = 0" by simp
  have s1: "pending ?s = ''lib/util.js'' # []" by (simp add: initial_def)
  have s2: "fs_stat exampleHost (world ?s) ''lib/util.js'' = Inr False"
    by (simp add: initial_def exampleHost_def exampleTree_def)
  have s3: "fs_readFile exampleHost (world ?s) ''lib/util.js'' = Inr ''var u''"
    by (simp add: initial_def exampleHost_def exampleTree_def)
  have s4: "modernizeJS modernizeMode" by (simp add: modernizeMode_def)
  have s5: "engine_modernizeJS exampleHost ''var u''
              (withFilename ''lib/util.js'' (baseOptions modernizeMode)) = Inr ''// var u''"
    by (simp add: exampleHost_def exampleEngine_def)
  have n: "''lib'' \<noteq> []" by simp
  note fixed = js_path_fixed [OF h1 h2 h3, unfolded example_js_paths [THEN conjunct1]]
  note child = js_path_fixed [OF h1 h2' h3, of "''lib''", unfolded example_js_paths [THEN conjunct2]]
  from fixed have a: "endsWith ''../src/foo.js'' ''.js''"
    and b: "outputPath ''../src/foo.js'' = ''../src/foo.js''" by blast+
  from child n have c: "outputPath ''lib/util.js'' = ''lib/util.js''" by blast
  note step = js_path_fixed [OF h1 h2 h3, of _ ?s exampleHost modernizeMode True]
  from step s1 s2 s3 s4 s5 c
  have "trace (processNext exampleHost modernizeMode True ?s) =
        trace ?s @
        [Stat ''lib/util.js'', ConsoleLog ''lib/util.js'' ''lib/util.js'', ReadFile ''lib/util.js'',
         EngineCall True ''var u'' (withFilename ''lib/util.js'' (baseOptions modernizeMode)),
         WriteFile ''lib/util.js'' ''// var u'']"
    by blast
  then have d: "trace (processNext exampleHost modernizeMode True ?s) =
        [Stat ''lib/util.js'', ConsoleLog ''lib/util.js'' ''lib/util.js'', ReadFile ''lib/util.js'',
         EngineCall True ''var u'' (withFilename ''lib/util.js'' (baseOptions modernizeMode)),
         WriteFile ''lib/util.js'' ''// var u'']"
    by (simp add: initial_def)
  from a b c d show ?thesis by blast
qed

section \<open>The errors collected by a run from the command line\<close>

lemma delivered_append: "delivered (evs @ evs') = delivered evs @ delivered evs'"
  by (induction evs rule: delivered.induct) simp_all

lemma delivered_runWithCode: "delivered (fst (runWithCode h name code options)) = []"
  by (simp add: runWithCode_def Let_def split: sum.splits)

lemma delivered_processFile:
  "delivered (trace (processFile h options p s)) = delivered (trace s)"
  using delivered_runWithCode [of h p _ options]
  apply (simp add: processFile_def Let_def delivered_append split: sum.splits prod.splits)
  apply (metis fst_conv)
  done

lemma delivered_processNext:
  "delivered (trace (processNext h options False s)) = delivered (trace s)"
  by (simp add: processNext_def processPath_def processDirectory_def Let_def
        delivered_processFile delivered_append split: list.splits sum.splits)

lemma delivered_steps:
  "delivered (trace (steps h options False n s)) = delivered (trace s)"
  by (induction n arbitrary: s) (simp_all add: delivered_processNext)

lemma delivered_runWithStdio: "delivered (trace (runWithStdio h options chunks w)) = []"
  using delivered_runWithCode [of h "''stdin''" _ options]
  apply (simp add: runWithStdio_def Let_def delivered_append split: sum.splits prod.splits)
  apply (metis fst_conv)
  done



lemma delivered_aborted: "delivered (trace (aborted a w)) = []"
  by (cases a) simp_all

text \<open>
  A call of \<^verbatim>\<open>processNext\<close> leaves the run going, finished or stalled, unless it
  reads a file whose conversion ends the process.
\<close>

lemma steps_stay:
  "status (steps h options callback n s) \<noteq> Running \<Longrightarrow>
   steps h options callback (n + m) s = steps h options callback n s"
proof (induction m)
  case 0
  show ?case by simp
next
  case (Suc m)
  then show ?case
    using steps_Suc_end [of h options callback "n + m" s] by (simp del: steps.simps)
qed

lemma status_processFile:
  "status s = Running \<Longrightarrow>
   status (processFile h options p s) = Running \<or>
   (\<exists>data st. fs_readFile h (world s) p = Inr data \<and>
      snd (runWithCode h p data options) = Inl st \<and>
      status (processFile h options p s) = st)"
  by (auto simp add: processFile_def Let_def split: sum.splits prod.splits)

lemma status_processNext:
  assumes "status s = Running"
  shows "status (processNext h options False s) = Running \<or>
         status (processNext h options False s) = Finished \<or>
         status (processNext h options False s) = Stalled \<or>
         (\<exists>p rest data st. pending s = p # rest \<and> fs_stat h (world s) p = Inr False \<and>
            fs_readFile h (world s) p = Inr data \<and>
            snd (runWithCode h p data options) = Inl st \<and>
            status (processNext h options False s) = st)"
proof (cases "pending s")
  case Nil
  then show ?thesis by (simp add: processNext_empty)
next
  case (Cons p rest)
  show ?thesis
  proof (cases "fs_stat h (world s) p")
    case (Inl e)
    with Cons show ?thesis by (simp add: processNext_stat_error)
  next
    case (Inr isDirectory)
    show ?thesis
    proof (cases isDirectory)
      case True
      with Inr Cons assms show ?thesis
        by (cases "fs_readdir h (world s) p")
           (simp_all add: processNext_readdir_error processNext_directory)
    next
      case False
      let ?s = "s\<lparr>pending := rest, trace := trace s @ [Stat p]\<rparr>"
      from assms have "status ?s = Running" by simp
      from status_processFile [OF this, of h options p]
      have "status (processFile h options p ?s) = Running \<or>
            (\<exists>data st. fs_readFile h (world s) p = Inr data \<and>
               snd (runWithCode h p data options) = Inl st \<and>
               status (processFile h options p ?s) = st)"
        by simp
      moreover have "processNext h options False s = processFile h options p ?s"
        using Cons Inr False by (simp add: processNext_def processPath_def)
      ultimately show ?thesis
        using Cons Inr False by auto
    qed
  qed
qed

lemma status_steps:
  assumes nf: "\<forall>k<n. \<forall>p rest data.
           status (steps h options False k s) = Running \<and>
           pending (steps h options False k s) = p # rest \<and>
           fs_stat h (world (steps h options False k s)) p = Inr False \<and>
           fs_readFile h (world (steps h options False k s)) p = Inr data \<longrightarrow>
           (\<exists>out. snd (runWithCode h p data options) = Inr out)"
      and start: "status s = Running"
  shows "status (steps h options False n s) = Running \<or>
         status (steps h options False n s) = Finished \<or>
         status (steps h options False n s) = Stalled"
  using nf
proof (induction n)
  case 0
  with start show ?case by simp
next
  case (Suc n)
  let ?t = "steps h options False n s"
  from Suc.prems have "\<forall>k<n. \<forall>p rest data.
           status (steps h options False k s) = Running \<and>
           pending (steps h options False k s) = p # rest \<and>
           fs_stat h (world (steps h options False k s)) p = Inr False \<and>
           fs_readFile h (world (steps h options False k s)) p = Inr data \<longrightarrow>
           (\<exists>out. snd (runWithCode h p data options) = Inr out)"
    by (meson less_SucI)
  from Suc.IH [OF this] have ih: "status ?t = Running \<or> status ?t = Finished \<or> status ?t = Stalled" .
  show ?case
  proof (cases "status ?t = Running")
    case False
    then have "steps h options False (Suc n) s = ?t"
      using steps_Suc_end [of h options False n s] by (simp del: steps.simps)
    with ih show ?thesis by simp
  next
    case True
    then have nx: "steps h options False (Suc n) s = processNext h options False ?t"
      using steps_Suc_end [of h options False n s] by (simp del: steps.simps)
    from Suc.prems [rule_format, of n] True
    have here: "\<And>p rest data. pending ?t = p # rest \<Longrightarrow> fs_stat h (world ?t) p = Inr False \<Longrightarrow>
            fs_readFile h (world ?t) p = Inr data \<Longrightarrow>
            \<exists>out. snd (runWithCode h p data options) = Inr out"
      by blast
    from status_processNext [OF True, of h options] here show ?thesis
      unfolding nx by (metis sum.distinct(1))
  qed
qed

lemma weight_processNext:
  assumes "pending s = p # rest"
      and "\<forall>children. fs_stat h (world s) p = Inr True \<and> fs_readdir h (world s) p = Inr children \<longrightarrow>
             sum_list (map (\<lambda>c. Suc (weight (join p c))) (filter (eligible options) children)) \<le>
               weight p"
  shows "sum_list (map (\<lambda>q. Suc (weight q)) (pending (processNext h options callback s))) <
         sum_list (map (\<lambda>q. Suc (weight q)) (pending s))"
proof -
  have "sum_list (map (\<lambda>c. Suc (weight (join p c))) (requeued h options (world s) p)) \<le> weight p"
    using assms(2)
    by (auto simp add: requeued_def split: sum.splits bool.splits)
  then show ?thesis
    unfolding pending_processNext [OF assms(1)] assms(1)
    by (simp add: comp_def)
qed

lemma steps_end:
  "(\<forall>k<n. \<forall>d rest children.
       status (steps h options callback k s) = Running \<and>
       pending (steps h options callback k s) = d # rest \<and>
       fs_stat h (world (steps h options callback k s)) d = Inr True \<and>
       fs_readdir h (world (steps h options callback k s)) d = Inr children \<longrightarrow>
       sum_list (map (\<lambda>c. Suc (weight (join d c))) (filter (eligible options) children)) \<le>
         weight d) \<Longrightarrow>
   sum_list (map (\<lambda>q. Suc (weight q)) (pending s)) < n \<Longrightarrow>
   status (steps h options callback n s) \<noteq> Running"
proof (induction n arbitrary: s)
  case 0
  then show ?case by simp
next
  case (Suc n)
  show ?case
  proof (cases "status s = Running")
    case False
    then show ?thesis by simp
  next
    case True
    let ?next = "processNext h options callback s"
    show ?thesis
    proof (cases "pending s")
      case Nil
      then have "status ?next \<noteq> Running"
        by (cases callback) (simp_all add: processNext_empty)
      then have "steps h options callback n ?next = ?next" by (rule steps_stopped)
      with True \<open>status ?next \<noteq> Running\<close> show ?thesis by simp
    next
      case (Cons p rest)
      from Suc.prems(1) [rule_format, of 0] True Cons
      have "\<forall>children. fs_stat h (world s) p = Inr True \<and> fs_readdir h (world s) p = Inr children \<longrightarrow>
             sum_list (map (\<lambda>c. Suc (weight (join p c))) (filter (eligible options) children)) \<le>
               weight p"
        by simp
      from weight_processNext [OF Cons this, of callback] Suc.prems(2)
      have less: "sum_list (map (\<lambda>q. Suc (weight q)) (pending ?next)) < n"
        by simp
      have later: "\<forall>k<n. \<forall>d rest children.
         status (steps h options callback k ?next) = Running \<and>
         pending (steps h options callback k ?next) = d # rest \<and>
         fs_stat h (world (steps h options callback k ?next)) d = Inr True \<and>
         fs_readdir h (world (steps h options callback k ?next)) d = Inr children \<longrightarrow>
         sum_list (map (\<lambda>c. Suc (weight (join d c))) (filter (eligible options) children)) \<le>
           weight d"
      proof (intro allI impI)
        fix k d rest children
        assume "k < n" and a: "status (steps h options callback k ?next) = Running \<and>
         pending (steps h options callback k ?next) = d # rest \<and>
         fs_stat h (world (steps h options callback k ?next)) d = Inr True \<and>
         fs_readdir h (world (steps h options callback k ?next)) d = Inr children"
        then have "Suc k < Suc n" by simp
        from Suc.prems(1) [rule_format, OF this, of d rest children] a True
        show "sum_list (map (\<lambda>c. Suc (weight (join d c))) (filter (eligible options) children)) \<le>
           weight d"
          by simp
      qed
      from Suc.IH [OF later less] True show ?thesis by simp
    qed
  qed
qed


text \<open>
  Claim C10. \<^verbatim>\<open>run\<close> starts \<^verbatim>\<open>runWithPaths\<close> without a completion callback.
  So no state of such a run, and no final state of \<^verbatim>\<open>run\<close>, has handed a list of
  errors to a callback. When the arguments name paths and every conversion that the run
  starts returns (the only errors are those that \<^verbatim>\<open>fs\<close> reports), a run that ends
  is finished or stalled, and its exit status is 0 whatever it collected in
  \<^verbatim>\<open>errors\<close>. And the run does end: when every directory that the run lists
  outweighs the children it puts on the work list, for some assignment \<open>weight\<close> of
  numbers to paths, the run has come to its end after as many calls of
  \<^verbatim>\<open>processNext\<close> as the weights of the paths on the command line allow, and more
  calls do not change the result. In the example the run on the directory \<^verbatim>\<open>D\<close> and
  on \<^verbatim>\<open>w.coffee\<close>, whose output cannot be written, ends after five calls with the
  error of \<^verbatim>\<open>writeFile\<close> collected, nothing delivered and exit status 0.
\<close>

theorem cli_run_discards_errors:
  "delivered (trace (steps (h :: ('w, 'e) host) anyOptions False n (initial ps w))) = [] \<and>
   (\<forall>s. run h args chunks w fuel = Some s \<longrightarrow> delivered (trace s) = []) \<and>
   (parseArguments args = Inr options \<and> paths options \<noteq> [] \<longrightarrow>
      run h args chunks w fuel = runWithPaths h (paths options) options False w fuel \<and>
      ((\<forall>k<fuel. \<forall>p rest data.
           status (steps h options False k (initial (paths options) w)) = Running \<and>
           pending (steps h options False k (initial (paths options) w)) = p # rest \<and>
           fs_stat h (world (steps h options False k (initial (paths options) w))) p =
             Inr False \<and>
           fs_readFile h (world (steps h options False k (initial (paths options) w))) p =
             Inr data \<longrightarrow>
           (\<exists>out. snd (runWithCode h p data options) = Inr out)) \<longrightarrow>
       (\<forall>s. run h args chunks w fuel = Some s \<longrightarrow>
          (status s = Finished \<or> status s = Stalled) \<and> exitStatus (status s) = Some 0)) \<and>
      ((\<forall>k<Suc (sum_list (map (\<lambda>q. Suc (weight q)) (paths options))).
          \<forall>d rest children.
           status (steps h options False k (initial (paths options) w)) = Running \<and>
           pending (steps h options False k (initial (paths options) w)) = d # rest \<and>
           fs_stat h (world (steps h options False k (initial (paths options) w))) d =
             Inr True \<and>
           fs_readdir h (world (steps h options False k (initial (paths options) w))) d =
             Inr children \<longrightarrow>
           sum_list (map (\<lambda>c. Suc (weight (join d c))) (filter (eligible options) children))
             \<le> weight d) \<longrightarrow>
       (\<forall>m. run h args chunks w (Suc (sum_list (map (\<lambda>q. Suc (weight q)) (paths options))) + m) =
            Some (steps h options False
                    (Suc (sum_list (map (\<lambda>q. Suc (weight q)) (paths options))))
                    (initial (paths options) w)))))"
proof -
  have a: "delivered (trace (steps h anyOptions False n (initial ps w))) = []"
    by (simp add: delivered_steps initial_def)
  have c: "delivered (trace s) = []" if r: "run h args chunks w fuel = Some s" for s
  proof (cases "parseArguments args")
    case (Inl a)
    with r show ?thesis by (auto simp add: run_def delivered_aborted)
  next
    case (Inr options)
    show ?thesis
    proof (cases "paths options = []")
      case True
      with Inr r show ?thesis by (auto simp add: run_def delivered_runWithStdio)
    next
      case False
      with Inr r show ?thesis
        by (auto simp add: run_def runWithPaths_def Let_def delivered_steps initial_def
                 split: if_splits)
    qed
  qed
  let ?init = "initial (paths options) w :: ('w, 'e) state"
  let ?N = "Suc (sum_list (map (\<lambda>q. Suc (weight q)) (paths options)))"
  have r: "run h args chunks w f = runWithPaths h (paths options) options False w f"
    if "parseArguments args = Inr options" "paths options \<noteq> []" for f
    using that by (simp add: run_def)
  have nfc: "(status s = Finished \<or> status s = Stalled) \<and> exitStatus (status s) = Some 0"
    if pa: "parseArguments args = Inr options" "paths options \<noteq> []"
      and nf: "\<forall>k<fuel. \<forall>p rest data.
           status (steps h options False k ?init) = Running \<and>
           pending (steps h options False k ?init) = p # rest \<and>
           fs_stat h (world (steps h options False k ?init)) p = Inr False \<and>
           fs_readFile h (world (steps h options False k ?init)) p = Inr data \<longrightarrow>
           (\<exists>out. snd (runWithCode h p data options) = Inr out)"
      and s: "run h args chunks w fuel = Some s" for s
  proof -
    from s r [OF pa, of fuel] have e: "s = steps h options False fuel ?init"
      and st: "status s \<noteq> Running"
      by (auto simp add: runWithPaths_def Let_def split: if_splits)
    have "status ?init = Running" by (simp add: initial_def)
    from status_steps [OF nf this] st have "status s = Finished \<or> status s = Stalled"
      unfolding e by blast
    then show ?thesis by auto
  qed
  have szc: "run h args chunks w (?N + m) = Some (steps h options False ?N ?init)"
    if pa: "parseArguments args = Inr options" "paths options \<noteq> []"
      and sz: "\<forall>k<?N. \<forall>d rest children.
           status (steps h options False k ?init) = Running \<and>
           pending (steps h options False k ?init) = d # rest \<and>
           fs_stat h (world (steps h options False k ?init)) d = Inr True \<and>
           fs_readdir h (world (steps h options False k ?init)) d = Inr children \<longrightarrow>
           sum_list (map (\<lambda>c. Suc (weight (join d c))) (filter (eligible options) children))
             \<le> weight d" for m
  proof -
    have "sum_list (map (\<lambda>q. Suc (weight q)) (pending ?init)) < ?N"
      by (simp add: initial_def)
    with sz have st: "status (steps h options False ?N ?init) \<noteq> Running"
      by (rule steps_end)
    then have "steps h options False (?N + m) ?init = steps h options False ?N ?init"
      by (rule steps_stay)
    with st r [OF pa, of "?N + m"] show ?thesis
      by (simp add: runWithPaths_def Let_def del: steps.simps)
  qed
  from a c r nfc szc show ?thesis by blast
qed


theorem cli_run_discards_errors_witness:
  "map_option (\<lambda>s. (errors s, status s, delivered (trace s), exitStatus (status s)))
     (run exampleHost [''D'', ''w.coffee''] [] exampleTree 5) =
     Some ([EISDIR ''w.js''], Finished, [], Some 0) \<and>
   map_option (\<lambda>s. (errors s, status s, delivered (trace s), exitStatus (status s)))
     (run exampleHost [''D'', ''w.coffee''] [] exampleTree (5 + 7)) =
     Some ([EISDIR ''w.js''], Finished, [], Some 0)"
proof -
  define opts where "opts = convertMode\<lparr>paths := [''D'', ''w.coffee'']\<rparr>"
  define wt where "wt = (\<lambda>p :: path. if p = ''D'' then 2 else (0 :: nat))"
  define T where "T k = steps exampleHost opts False k (initial (paths opts) exampleTree)" for k
  have pa: "parseArguments [''D'', ''w.coffee''] = Inr opts"
    unfolding opts_def by code_simp
  have ne: "paths opts \<noteq> []"
    unfolding opts_def by simp
  have five: "Suc (sum_list (map (\<lambda>q. Suc (wt q)) (paths opts))) = 5"
    unfolding opts_def wt_def by simp
  have below: "k = 0 \<or> k = 1 \<or> k = 2 \<or> k = 3 \<or> k = 4" if "k < 5" for k :: nat
    using that by linarith
  have files: "\<forall>k<5. case pending (T k) of
       [] \<Rightarrow> True
     | p # rest \<Rightarrow>
         (case fs_readFile exampleHost (world (T k)) p of
            Inl e \<Rightarrow> True
          | Inr data \<Rightarrow>
              (case snd (runWithCode exampleHost p data opts) of
                 Inl st \<Rightarrow> False
               | Inr out \<Rightarrow> True))"
  proof (intro allI impI)
    fix k :: nat
    assume "k < 5"
    from below [OF this]
    show "case pending (T k) of
       [] \<Rightarrow> True
     | p # rest \<Rightarrow>
         (case fs_readFile exampleHost (world (T k)) p of
            Inl e \<Rightarrow> True
          | Inr data \<Rightarrow>
              (case snd (runWithCode exampleHost p data opts) of
                 Inl st \<Rightarrow> False
               | Inr out \<Rightarrow> True))"
      unfolding T_def opts_def by (elim disjE; hypsubst; code_simp)
  qed
  have nf: "\<forall>k<5. \<forall>p rest data.
       status (T k) = Running \<and> pending (T k) = p # rest \<and>
       fs_stat exampleHost (world (T k)) p = Inr False \<and>
       fs_readFile exampleHost (world (T k)) p = Inr data \<longrightarrow>
       (\<exists>out. snd (runWithCode exampleHost p data opts) = Inr out)"
  proof (intro allI impI)
    fix k p rest data
    assume "k < 5" and a: "status (T k) = Running \<and> pending (T k) = p # rest \<and>
       fs_stat exampleHost (world (T k)) p = Inr False \<and>
       fs_readFile exampleHost (world (T k)) p = Inr data"
    with files show "\<exists>out. snd (runWithCode exampleHost p data opts) = Inr out"
      by (cases "snd (runWithCode exampleHost p data opts)") auto
  qed
  have dirs: "\<forall>k<5. case pending (T k) of
       [] \<Rightarrow> True
     | d # rest \<Rightarrow>
         (case fs_stat exampleHost (world (T k)) d of
            Inl e \<Rightarrow> True
          | Inr isDirectory \<Rightarrow>
              (case fs_readdir exampleHost (world (T k)) d of
                 Inl e \<Rightarrow> True
               | Inr children \<Rightarrow>
                   isDirectory \<longrightarrow>
                   sum_list (map (\<lambda>c. Suc (wt (join d c))) (filter (eligible opts) children))
                     \<le> wt d))"
  proof (intro allI impI)
    fix k :: nat
    assume "k < 5"
    from below [OF this]
    show "case pending (T k) of
       [] \<Rightarrow> True
     | d # rest \<Rightarrow>
         (case fs_stat exampleHost (world (T k)) d of
            Inl e \<Rightarrow> True
          | Inr isDirectory \<Rightarrow>
              (case fs_readdir exampleHost (world (T k)) d of
                 Inl e \<Rightarrow> True
               | Inr children \<Rightarrow>
                   isDirectory \<longrightarrow>
                   sum_list (map (\<lambda>c. Suc (wt (join d c))) (filter (eligible opts) children))
                     \<le> wt d))"
      unfolding T_def opts_def wt_def by (elim disjE; hypsubst; code_simp)
  qed
  have sz: "\<forall>k<5. \<forall>d rest children.
       status (T k) = Running \<and> pending (T k) = d # rest \<and>
       fs_stat exampleHost (world (T k)) d = Inr True \<and>
       fs_readdir exampleHost (world (T k)) d = Inr children \<longrightarrow>
       sum_list (map (\<lambda>c. Suc (wt (join d c))) (filter (eligible opts) children)) \<le> wt d"
  proof (intro allI impI)
    fix k d rest children
    assume "k < 5" and a: "status (T k) = Running \<and> pending (T k) = d # rest \<and>
       fs_stat exampleHost (world (T k)) d = Inr True \<and>
       fs_readdir exampleHost (world (T k)) d = Inr children"
    with dirs
    show "sum_list (map (\<lambda>c. Suc (wt (join d c))) (filter (eligible opts) children)) \<le> wt d"
      by fastforce
  qed
  have final: "errors (T 5) = [EISDIR ''w.js''] \<and> status (T 5) = Finished"
    unfolding T_def opts_def by code_simp
  note t = cli_run_discards_errors [where h = exampleHost and args = "[''D'', ''w.coffee'']"
      and chunks = "[]" and w = exampleTree and fuel = 5 and options = opts and weight = wt,
      unfolded five, folded T_def]
  from t pa ne sz have ends: "\<forall>m. run exampleHost [''D'', ''w.coffee''] [] exampleTree (5 + m) = Some (T 5)"
    by blast
  then have "run exampleHost [''D'', ''w.coffee''] [] exampleTree (5 + 0) = Some (T 5)"
    by (rule spec)
  then have now: "run exampleHost [''D'', ''w.coffee''] [] exampleTree 5 = Some (T 5)"
    by simp
  from t pa ne nf now have ok: "(status (T 5) = Finished \<or> status (T 5) = Stalled) \<and>
      exitStatus (status (T 5)) = Some 0"
    by blast
  from t now have quiet: "delivered (trace (T 5)) = []"
    by blast
  from ends have later: "run exampleHost [''D'', ''w.coffee''] [] exampleTree (5 + 7) = Some (T 5)"
    by (rule spec)
  from final ok quiet have "map_option (\<lambda>s. (errors s, status s, delivered (trace s), exitStatus (status s)))
      (Some (T 5)) = Some ([EISDIR ''w.js''], Finished, [], Some 0)"
    by simp
  then show ?thesis
    unfolding now later by simp
qed

end
